theory Spec2Isabelle
  imports Main "HOL-Library.Word"
begin

unbundle bit_operations_syntax

section \<open>JavaScript strings and numbers\<close>

text \<open>
  A JavaScript string is a sequence of UTF-16 code units; \<open>charCodeAt\<close>, the regular
  expressions (none of them has the \<open>u\<close> flag), \<open>split\<close>, \<open>trim\<close> and \<open>===\<close> all work on code
  units.  A code unit is modelled as a natural number (below \<open>65536\<close> in every real string)
  and a string as a list of them.  \<open>str\<close> writes an ASCII literal of the source.
\<close>

type_synonym cu = nat
type_synonym jstring = "cu list"

definition str :: "string \<Rightarrow> jstring" where
  "str s = map of_char s"

text \<open>
  Numbers that the parser computes are integers, or \<open>NaN\<close>: \<open>None\<close> stands for \<open>NaN\<close> (and for
  \<open>undefined\<close> where the source converts it to a number, which gives \<open>NaN\<close>).
\<close>

type_synonym jnum = "int option"

section \<open>Sender colour: \<open>getRandomColor\<close>\<close>

definition colors :: "jstring list" where
  "colors =
    [str ''bg-red-500'', str ''bg-orange-500'', str ''bg-amber-500'', str ''bg-green-500'',
     str ''bg-emerald-500'', str ''bg-teal-500'', str ''bg-cyan-500'', str ''bg-blue-500'',
     str ''bg-indigo-500'', str ''bg-violet-500'', str ''bg-purple-500'', str ''bg-fuchsia-500'',
     str ''bg-pink-500'']"

text \<open>
  \<open>hash << 5\<close>: the operand is converted by ToInt32 (reduced modulo \<open>2^32\<close> into the signed
  32-bit range), shifted, and the result is again a signed 32-bit integer.
\<close>

definition shl5 :: "int \<Rightarrow> int" where
  "shl5 h = sint (push_bit 5 (word_of_int h :: 32 word))"

text \<open>
  One round of the loop body \<open>hash = name.charCodeAt(i) + ((hash << 5) - hash)\<close>.  Only
  \<open><<\<close> works on 32-bit integers; \<open>-\<close> and \<open>+\<close> are the operations of JavaScript numbers
  (binary64), which are exact on integers of magnitude below \<open>2^53\<close>.  They are modelled on
  \<open>int\<close>, which is the code for every name of fewer than \<open>2^21\<close> code units (see
  \<open>hashLoop_prefix_bound\<close>); for longer names the hash of the code may be rounded, and what is
  proved of the colour is proved of names below that length.
\<close>

definition hashStep :: "int \<Rightarrow> cu \<Rightarrow> int" where
  "hashStep hash c = int c + (shl5 hash - hash)"

definition hashLoop :: "jstring \<Rightarrow> int" where
  "hashLoop name = foldl hashStep 0 name"

definition getRandomColor :: "jstring \<Rightarrow> jstring" where
  "getRandomColor name = colors ! nat (\<bar>hashLoop name\<bar> mod int (length colors))"

text \<open>
  The hash the specification describes: the same formula with every operation wrapping
  around as 32-bit signed arithmetic does.
\<close>

definition hashStep32 :: "32 word \<Rightarrow> cu \<Rightarrow> 32 word" where
  "hashStep32 hash c = word_of_nat c + (push_bit 5 hash - hash)"

definition hashLoop32 :: "jstring \<Rightarrow> int" where
  "hashLoop32 name = sint (foldl hashStep32 0 name)"

definition getRandomColor32 :: "jstring \<Rightarrow> jstring" where
  "getRandomColor32 name = colors ! nat (\<bar>hashLoop32 name\<bar> mod 13)"

section \<open>Built-in string operations\<close>

text \<open>
  White space as \<open>trim\<close> and the class \<open>\s\<close> understand it: the WhiteSpace and LineTerminator
  code points of ECMAScript.
\<close>

definition isWhiteSpace :: "cu \<Rightarrow> bool" where
  "isWhiteSpace c \<longleftrightarrow>
     c \<in> {9, 10, 11, 12, 13, 32, 160, 5760, 8232, 8233, 8239, 8287, 12288, 65279}
     \<or> (8192 \<le> c \<and> c \<le> 8202)"

text \<open>The class \<open>\d\<close> and the value of a decimal digit.\<close>

definition isDigit :: "cu \<Rightarrow> bool" where
  "isDigit c \<longleftrightarrow> 48 \<le> c \<and> c \<le> 57"

text \<open>The class \<open>.\<close> (no \<open>s\<close> flag): every code unit except the four line terminators.\<close>

definition isDot :: "cu \<Rightarrow> bool" where
  "isDot c \<longleftrightarrow> c \<notin> {10, 13, 8232, 8233}"

text \<open>\<open>text.split('\n')\<close>, with the separator as a parameter: it never returns an empty list.\<close>

fun split_str :: "cu \<Rightarrow> jstring \<Rightarrow> jstring list" where
  "split_str d [] = [[]]"
| "split_str d (c # cs) =
     (if c = d then [] # split_str d cs
      else (case split_str d cs of [] \<Rightarrow> [[c]] | x # xs \<Rightarrow> (c # x) # xs))"

definition trim :: "jstring \<Rightarrow> jstring" where
  "trim s = rev (dropWhile isWhiteSpace (rev (dropWhile isWhiteSpace s)))"

text \<open>\<open>s.includes(sub)\<close>: \<open>sub\<close> occurs in \<open>s\<close> at some position.\<close>

fun includes_str :: "jstring \<Rightarrow> jstring \<Rightarrow> bool" where
  "includes_str [] sub \<longleftrightarrow> sub = []"
| "includes_str (c # cs) sub \<longleftrightarrow> take (length sub) (c # cs) = sub \<or> includes_str cs sub"

text \<open>
  \<open>toLowerCase\<close> is the locale-independent lower-casing of Unicode.  The model has the
  mappings of the Basic Latin and Latin-1 blocks, of the capital letters of the Turkish
  alphabet outside them (\<open>U+011E\<close>, \<open>U+015E\<close> and \<open>U+0130\<close>, whose lower case is the two code
  units \<open>i\<close>, \<open>U+0307\<close>) and of the Kelvin and Angstrom signs (\<open>U+212A\<close>, \<open>U+212B\<close>); every
  other code unit is left as it is.  These are all the code units whose lower case holds a
  letter of the Basic Latin or Latin-1 block or one of the Turkish letters, so the search for
  the system phrases and the comparison of file extensions below see what JavaScript sees.
\<close>

definition lowerCU :: "cu \<Rightarrow> jstring" where
  "lowerCU c =
     (if 65 \<le> c \<and> c \<le> 90 then [c + 32]
      else if 192 \<le> c \<and> c \<le> 222 \<and> c \<noteq> 215 then [c + 32]
      else if c = 286 \<or> c = 350 then [c + 1]
      else if c = 304 then [105, 775]
      else if c = 8490 then [107]
      else if c = 8491 then [229]
      else [c])"

definition toLowerCase :: "jstring \<Rightarrow> jstring" where
  "toLowerCase s = concat (map lowerCU s)"

text \<open>
  \<open>Number(s)\<close> on the parts of a date token.  A part comes from splitting a string of digits,
  \<open>.\<close> and \<open>/\<close>: a string of digits has its decimal value (the empty string is \<open>0\<close>), and a part
  that holds anything else (here: a \<open>/\<close>) is \<open>NaN\<close>.
\<close>

definition digitsValue :: "jstring \<Rightarrow> int" where
  "digitsValue s = foldl (\<lambda>n c. 10 * n + (int c - 48)) 0 s"

definition Number :: "jstring \<Rightarrow> jnum" where
  "Number s = (if list_all isDigit s then Some (digitsValue s) else None)"

text \<open>
  \<open>parseInt(s, 10)\<close>: leading white space is skipped, a sign is read, and the longest prefix of
  decimal digits is the value; \<open>NaN\<close> when there is no digit.
\<close>

definition parseInt :: "jstring \<Rightarrow> jnum" where
  "parseInt s =
     (let t = dropWhile isWhiteSpace s;
          neg = (t \<noteq> [] \<and> hd t = 45);
          u = (if t \<noteq> [] \<and> (hd t = 45 \<or> hd t = 43) then tl t else t);
          ds = takeWhile isDigit u
      in if ds = [] then None
         else Some (if neg then - digitsValue ds else digitsValue ds))"

text \<open>The decimal digits of a natural number, and a number converted to a string.\<close>

fun digitsOf :: "nat \<Rightarrow> jstring" where
  "digitsOf n = (if n < 10 then [48 + n] else digitsOf (n div 10) @ [48 + n mod 10])"

definition numToString :: "jnum \<Rightarrow> jstring" where
  "numToString x =
     (case x of None \<Rightarrow> str ''NaN''
      | Some n \<Rightarrow> if n < 0 then 45 # digitsOf (nat (- n)) else digitsOf (nat n))"

section \<open>Dates\<close>

text \<open>
  \<open>new Date(year, monthIndex, day, hours, minutes, seconds)\<close> computes a local time value in
  milliseconds from its arguments by the arithmetic below (MakeDay, MakeTime and MakeDate of
  ECMAScript), converts it to UTC in the time zone of the host and clips it (TimeClip); a
  \<open>NaN\<close> argument gives the invalid date, \<open>None\<close>.  \<open>newDateIn z\<close> is the constructor in the
  host zone \<open>z\<close>, and \<open>getHoursIn z\<close> is \<open>getHours()\<close> there.

  The parser below is written once, for the local time value: its \<open>timestamp\<close> is \<open>newDate\<close>
  of the fields, which is \<open>newDateIn\<close> in the zone of offset \<open>0\<close>.  In a host whose zone has a
  fixed offset, \<open>getTime()\<close> differs from this value by the offset, so differences and
  comparisons of \<open>getTime()\<close> are those of local values.  What depends on the zone of the
  host is stated with \<open>newDateIn\<close> and \<open>getHoursIn\<close>.
\<close>

type_synonym jdate = "int option"

definition DayFromYear :: "int \<Rightarrow> int" where
  "DayFromYear y =
     365 * (y - 1970) + (y - 1969) div 4 - (y - 1901) div 100 + (y - 1601) div 400"

definition InLeapYear :: "int \<Rightarrow> bool" where
  "InLeapYear y \<longleftrightarrow> y mod 4 = 0 \<and> (y mod 100 \<noteq> 0 \<or> y mod 400 = 0)"

text \<open>The number of days of the year before month \<open>mn\<close> (\<open>0\<close> is January).\<close>

definition daysBeforeMonth :: "bool \<Rightarrow> int \<Rightarrow> int" where
  "daysBeforeMonth leap mn =
     (let l = (if leap then 1 else 0) in
      if mn = 0 then 0 else if mn = 1 then 31 else if mn = 2 then 59 + l
      else if mn = 3 then 90 + l else if mn = 4 then 120 + l else if mn = 5 then 151 + l
      else if mn = 6 then 181 + l else if mn = 7 then 212 + l else if mn = 8 then 243 + l
      else if mn = 9 then 273 + l else if mn = 10 then 304 + l else 334 + l)"

definition MakeDay :: "int \<Rightarrow> int \<Rightarrow> int \<Rightarrow> int" where
  "MakeDay year month date =
     (let ym = year + month div 12; mn = month mod 12
      in DayFromYear ym + daysBeforeMonth (InLeapYear ym) mn + date - 1)"

definition MakeTime :: "int \<Rightarrow> int \<Rightarrow> int \<Rightarrow> int \<Rightarrow> int" where
  "MakeTime hour minute sec ms = hour * 3600000 + minute * 60000 + sec * 1000 + ms"

definition MakeDate :: "int \<Rightarrow> int \<Rightarrow> int" where
  "MakeDate day time = day * 86400000 + time"

definition TimeClip :: "int \<Rightarrow> jdate" where
  "TimeClip t = (if \<bar>t\<bar> > 8640000000000000 then None else Some t)"

definition newDate :: "jnum \<Rightarrow> jnum \<Rightarrow> jnum \<Rightarrow> jnum \<Rightarrow> jnum \<Rightarrow> jnum \<Rightarrow> jdate" where
  "newDate year monthIndex day hours minutes seconds =
     (case (year, monthIndex, day, hours, minutes, seconds) of
        (Some y, Some m, Some d, Some h, Some mi, Some s) \<Rightarrow>
          (let yr = (if 0 \<le> y \<and> y \<le> 99 then 1900 + y else y)
           in TimeClip (MakeDate (MakeDay yr m d) (MakeTime h mi s 0)))
      | _ \<Rightarrow> None)"

text \<open>
  The time zone of the host.  \<open>offsetOfUTC z t\<close> is the offset of local time from UTC, in
  milliseconds, at the instant \<open>t\<close>.  \<open>offsetOfLocal z t\<close> is the offset with which the zone
  reads the local time value \<open>t\<close>: for a local time that a transition repeats or skips,
  ECMAScript takes the offset before the transition.  \<open>UTC\<close> and \<open>LocalTime\<close> are the two
  conversions of ECMAScript.
\<close>

record timeZone =
  offsetOfLocal :: "int \<Rightarrow> int"
  offsetOfUTC :: "int \<Rightarrow> int"

definition UTC :: "timeZone \<Rightarrow> int \<Rightarrow> int" where
  "UTC z t = t - offsetOfLocal z t"

definition LocalTime :: "timeZone \<Rightarrow> int \<Rightarrow> int" where
  "LocalTime z t = t + offsetOfUTC z t"

definition newDateIn :: "timeZone \<Rightarrow> jnum \<Rightarrow> jnum \<Rightarrow> jnum \<Rightarrow> jnum \<Rightarrow> jnum \<Rightarrow> jnum \<Rightarrow> jdate" where
  "newDateIn z year monthIndex day hours minutes seconds =
     (case (year, monthIndex, day, hours, minutes, seconds) of
        (Some y, Some m, Some d, Some h, Some mi, Some s) \<Rightarrow>
          (let yr = (if 0 \<le> y \<and> y \<le> 99 then 1900 + y else y)
           in TimeClip (UTC z (MakeDate (MakeDay yr m d) (MakeTime h mi s 0))))
      | _ \<Rightarrow> None)"

text \<open>\<open>getHours()\<close>: HourFromTime of the local time of the stored time value; \<open>NaN\<close> for the invalid date.\<close>

definition HourFromTime :: "int \<Rightarrow> int" where
  "HourFromTime t = (t div 3600000) mod 24"

definition getHoursIn :: "timeZone \<Rightarrow> jdate \<Rightarrow> jnum" where
  "getHoursIn z d = map_option (\<lambda>t. HourFromTime (LocalTime z t)) d"

text \<open>A zone with the same offset at all times.\<close>

definition fixedZone :: "int \<Rightarrow> timeZone" where
  "fixedZone off = \<lparr> offsetOfLocal = (\<lambda>t. off), offsetOfUTC = (\<lambda>t. off) \<rparr>"

text \<open>
  The zone of Istanbul around 29 March 2015: two hours ahead of UTC until 01:00 UTC of that
  day (time value \<open>1427590800000\<close>), three hours from then on.  The local times from 03:00 to
  04:00 of that day are skipped, and are read with the offset of two hours.
\<close>

definition istanbul2015 :: timeZone where
  "istanbul2015 =
     \<lparr> offsetOfLocal = (\<lambda>t. if t < 1427601600000 then 7200000 else 10800000),
       offsetOfUTC = (\<lambda>t. if t < 1427590800000 then 7200000 else 10800000) \<rparr>"

section \<open>Regular expressions\<close>

text \<open>
  The three regular expressions of the parser are values of the datatype \<open>re\<close>, and
  \<open>re_match\<close> is the backtracking matcher of ECMAScript, written with continuations as the
  language definition does: a matcher takes the position, the rest of the input, the
  captures so far and a continuation, and alternatives are tried in order, the first
  success being the result.  Every quantifier of the source is on a single character class
  (\<open>Rep\<close>, greedy or not) except the optional group of the AM/PM marker (\<open>Opt\<close>).
\<close>

datatype re =
    Eps
  | Bol
  | Chr "cu \<Rightarrow> bool"
  | Seq re re
  | Alt re re
  | Rep bool nat "nat option" "cu \<Rightarrow> bool"
  | Opt re
  | Grp nat re

type_synonym captures = "nat \<rightharpoonup> jstring"
type_synonym continuation = "nat \<Rightarrow> jstring \<Rightarrow> captures \<Rightarrow> captures option"

fun decr :: "nat option \<Rightarrow> nat option" where
  "decr None = None"
| "decr (Some n) = Some (n - 1)"

text \<open>
  \<open>rep greedy p mn mx\<close>: between \<open>mn\<close> and \<open>mx\<close> (\<open>None\<close>: unbounded) code units of class \<open>p\<close>.
  The greedy form tries one more repetition before the continuation, the lazy form the
  continuation first.
\<close>

fun rep :: "bool \<Rightarrow> (cu \<Rightarrow> bool) \<Rightarrow> nat \<Rightarrow> nat option \<Rightarrow> nat \<Rightarrow> jstring \<Rightarrow> captures
    \<Rightarrow> continuation \<Rightarrow> captures option" where
  "rep greedy p mn mx i [] caps k = (if mn = 0 then k i [] caps else None)"
| "rep greedy p mn mx i (c # cs) caps k =
     (if mx \<noteq> Some 0 \<and> p c then
        (if mn > 0 then rep greedy p (mn - 1) (decr mx) (Suc i) cs caps k
         else if greedy then
           (case rep greedy p 0 (decr mx) (Suc i) cs caps k of
              Some r \<Rightarrow> Some r
            | None \<Rightarrow> k i (c # cs) caps)
         else
           (case k i (c # cs) caps of
              Some r \<Rightarrow> Some r
            | None \<Rightarrow> rep greedy p 0 (decr mx) (Suc i) cs caps k))
      else if mn = 0 then k i (c # cs) caps
      else None)"

fun re_match :: "re \<Rightarrow> nat \<Rightarrow> jstring \<Rightarrow> captures \<Rightarrow> continuation \<Rightarrow> captures option" where
  "re_match Eps i cs caps k = k i cs caps"
| "re_match Bol i cs caps k = (if i = 0 then k i cs caps else None)"
| "re_match (Chr p) i [] caps k = None"
| "re_match (Chr p) i (c # cs) caps k = (if p c then k (Suc i) cs caps else None)"
| "re_match (Seq a b) i cs caps k =
     re_match a i cs caps (\<lambda>i' cs' caps'. re_match b i' cs' caps' k)"
| "re_match (Alt a b) i cs caps k =
     (case re_match a i cs caps k of Some r \<Rightarrow> Some r | None \<Rightarrow> re_match b i cs caps k)"
| "re_match (Rep greedy mn mx p) i cs caps k = rep greedy p mn mx i cs caps k"
| "re_match (Opt a) i cs caps k =
     (case re_match a i cs caps k of Some r \<Rightarrow> Some r | None \<Rightarrow> k i cs caps)"
| "re_match (Grp n a) i cs caps k =
     re_match a i cs caps (\<lambda>i' cs' caps'. k i' cs' (caps'(n \<mapsto> take (i' - i) cs)))"

text \<open>
  \<open>s.match(r)\<close> for a regular expression without the \<open>g\<close> flag: the match is tried at every
  start position from the left, and the first success gives the captures.
\<close>

fun execFrom :: "re \<Rightarrow> nat \<Rightarrow> jstring \<Rightarrow> captures option" where
  "execFrom r i [] = re_match r i [] Map.empty (\<lambda>i' cs' caps'. Some caps')"
| "execFrom r i (c # cs) =
     (case re_match r i (c # cs) Map.empty (\<lambda>i' cs' caps'. Some caps') of
        Some caps \<Rightarrow> Some caps
      | None \<Rightarrow> execFrom r (Suc i) cs)"

definition exec :: "re \<Rightarrow> jstring \<Rightarrow> captures option" where
  "exec r s = execFrom r 0 s"

text \<open>
  What a match is, apart from the order in which the matcher looks for it:
  \<open>matches r i caps w caps'\<close> says that \<open>r\<close> matches the string \<open>w\<close> at position \<open>i\<close> and
  turns the captures \<open>caps\<close> into \<open>caps'\<close>.  The matcher only returns such matches
  (\<open>re_match_sound\<close> below).
\<close>

inductive matches :: "re \<Rightarrow> nat \<Rightarrow> captures \<Rightarrow> jstring \<Rightarrow> captures \<Rightarrow> bool" where
  m_Eps: "matches Eps i caps [] caps"
| m_Bol: "i = 0 \<Longrightarrow> matches Bol i caps [] caps"
| m_Chr: "p c \<Longrightarrow> matches (Chr p) i caps [c] caps"
| m_Seq: "matches a i caps w1 caps1 \<Longrightarrow> matches b (i + length w1) caps1 w2 caps2
          \<Longrightarrow> matches (Seq a b) i caps (w1 @ w2) caps2"
| m_Alt1: "matches a i caps w caps' \<Longrightarrow> matches (Alt a b) i caps w caps'"
| m_Alt2: "matches b i caps w caps' \<Longrightarrow> matches (Alt a b) i caps w caps'"
| m_Rep: "list_all p w \<Longrightarrow> mn \<le> length w \<Longrightarrow> (case mx of None \<Rightarrow> True | Some n \<Rightarrow> length w \<le> n)
          \<Longrightarrow> matches (Rep greedy mn mx p) i caps w caps"
| m_Opt1: "matches a i caps w caps' \<Longrightarrow> matches (Opt a) i caps w caps'"
| m_Opt2: "matches (Opt a) i caps [] caps"
| m_Grp: "matches a i caps w caps' \<Longrightarrow> matches (Grp n a) i caps w (caps'(n \<mapsto> w))"

text \<open>Writing patterns: a sequence, a literal, and a literal under the \<open>i\<close> flag.\<close>

definition seqs :: "re list \<Rightarrow> re" where
  "seqs rs = foldr Seq rs Eps"

definition lit :: "jstring \<Rightarrow> re" where
  "lit s = seqs (map (\<lambda>x. Chr (\<lambda>c. c = x)) s)"

text \<open>
  Under the \<open>i\<close> flag (without \<open>u\<close>) two code units match when their canonical forms, the
  upper-case mappings, are equal, and a code unit from \<open>128\<close> on is never mapped below
  \<open>128\<close>.  The patterns with the flag hold ASCII only, so a pattern character \<open>x\<close> matches the
  ASCII code units with the upper case of \<open>x\<close>.
\<close>

definition upperASCII :: "cu \<Rightarrow> cu" where
  "upperASCII c = (if 97 \<le> c \<and> c \<le> 122 then c - 32 else c)"

definition litI :: "jstring \<Rightarrow> re" where
  "litI s = seqs (map (\<lambda>x. Chr (\<lambda>c. c < 128 \<and> upperASCII c = upperASCII x)) s)"

definition alts :: "re list \<Rightarrow> re" where
  "alts rs = foldr Alt (butlast rs) (last rs)"

text \<open>
  \<^verbatim>\<open>/^\[(\d{1,2}[./]\d{1,2}[./]\d{2,4})\s+(OO|OS|AM|PM)?\s*(\d{1,2}:\d{2}:\d{2})\]\s+(.*?):\s+(.*)/\<close>
  where \<open>OO\<close> and \<open>OS\<close> stand for the Turkish markers, whose \<open>O\<close> is the letter \<open>U+00D6\<close>.
\<close>

definition isDateSep :: "cu \<Rightarrow> bool" where
  "isDateSep c \<longleftrightarrow> c = 46 \<or> c = 47"

definition dateRegex :: re where
  "dateRegex = seqs [Rep True 1 (Some 2) isDigit, Chr isDateSep,
                     Rep True 1 (Some 2) isDigit, Chr isDateSep,
                     Rep True 2 (Some 4) isDigit]"

definition markerRegex :: re where
  "markerRegex = alts [lit [214, 214], lit [214, 83], lit (str ''AM''), lit (str ''PM'')]"

definition timeRegex :: re where
  "timeRegex = seqs [Rep True 1 (Some 2) isDigit, Chr (\<lambda>c. c = 58),
                     Rep True 2 (Some 2) isDigit, Chr (\<lambda>c. c = 58),
                     Rep True 2 (Some 2) isDigit]"

definition msgStartRegex :: re where
  "msgStartRegex = seqs
     [Bol, Chr (\<lambda>c. c = 91),
      Grp 1 dateRegex,
      Rep True 1 None isWhiteSpace,
      Opt (Grp 2 markerRegex),
      Rep True 0 None isWhiteSpace,
      Grp 3 timeRegex,
      Chr (\<lambda>c. c = 93),
      Rep True 1 None isWhiteSpace,
      Grp 4 (Rep False 0 None isDot),
      Chr (\<lambda>c. c = 58),
      Rep True 1 None isWhiteSpace,
      Grp 5 (Rep True 0 None isDot)]"

text \<open>
  The class \<^verbatim>\<open>[a-zA-Z0-9_\-\.\s]\<close> and the alternatives
  \<^verbatim>\<open>(jpg|jpeg|png|mp4|opus|mp3|pdf|webp|mov)\<close> of the two attachment patterns, both with the
  \<open>i\<close> flag (which adds nothing to the class: it has both cases of every letter).
\<close>

definition isFileChar :: "cu \<Rightarrow> bool" where
  "isFileChar c \<longleftrightarrow>
     (97 \<le> c \<and> c \<le> 122) \<or> (65 \<le> c \<and> c \<le> 90) \<or> isDigit c \<or> c = 95 \<or> c = 45 \<or> c = 46
     \<or> isWhiteSpace c"

definition extensionRegex :: re where
  "extensionRegex = alts
     [litI (str ''jpg''), litI (str ''jpeg''), litI (str ''png''), litI (str ''mp4''),
      litI (str ''opus''), litI (str ''mp3''), litI (str ''pdf''), litI (str ''webp''),
      litI (str ''mov'')]"

definition fileNameRegex :: re where
  "fileNameRegex =
     Grp 1 (seqs [Rep True 1 None isFileChar, Chr (\<lambda>c. c = 46), Grp 2 extensionRegex])"

text \<open>
  \<^verbatim>\<open>/([a-zA-Z0-9_\-\.\s]+\.(jpg|...|mov))\s+(\(file attached\)|\(dosya eklendi\))/i\<close>
\<close>

definition attachmentRegexOld :: re where
  "attachmentRegexOld = seqs
     [fileNameRegex, Rep True 1 None isWhiteSpace,
      Grp 3 (alts [litI (str ''(file attached)''), litI (str ''(dosya eklendi)'')])]"

text \<open>
  \<^verbatim>\<open>/<([a-zA-Z0-9_\-\.\s]+\.(jpg|...|mov))\s+eklendi>/i\<close>
\<close>

definition attachmentRegexNew :: re where
  "attachmentRegexNew = seqs
     [Chr (\<lambda>c. c = 60), fileNameRegex, Rep True 1 None isWhiteSpace, litI (str ''eklendi>'')]"

section \<open>The data model (\<open>types.ts\<close>)\<close>

datatype MessageType = Text | Image | Audio | Video | System

record Message =
  id_msg :: jstring
  rawDate :: jstring
  timestamp :: jdate
  sender :: jstring
  content :: jstring
  isMe :: bool
  isSystem :: bool
  type_msg :: MessageType
  attachmentFileName :: "jstring option"

record ChatParticipant =
  name :: jstring
  lastMessage :: jstring
  lastMessageDate :: jdate
  avatarColor :: jstring

text \<open>The archive handle \<open>zipFile\<close> is opaque to the parser: any type \<open>'z\<close>.\<close>

record 'z ChatData =
  participants :: "ChatParticipant list"
  messages :: "Message list"
  allSenders :: "jstring list"
  zipFile :: "'z option"

section \<open>The parser: \<open>parseChatFile\<close>\<close>

text \<open>
  The result of \<open>line.match(msgStartRegex)\<close>, destructured as the source does: \<open>dateStr\<close>,
  \<open>amPm\<close> (\<open>undefined\<close>, here \<open>None\<close>, when the optional group did not take part), \<open>timeStr\<close>,
  \<open>senderNameRaw\<close> and \<open>contentStart\<close>.  The four other groups take part in every match.
\<close>

definition matchStart :: "jstring \<Rightarrow> (jstring \<times> jstring option \<times> jstring \<times> jstring \<times> jstring) option"
  where
  "matchStart line =
     (case exec msgStartRegex line of
        None \<Rightarrow> None
      | Some caps \<Rightarrow>
          (case (caps 1, caps 3, caps 4, caps 5) of
             (Some dateStr, Some timeStr, Some senderNameRaw, Some contentStart) \<Rightarrow>
               Some (dateStr, caps 2, timeStr, senderNameRaw, contentStart)
           | _ \<Rightarrow> None))"

text \<open>
  An element of an array by destructuring: \<open>undefined\<close> (\<open>None\<close>) beyond the end.
\<close>

definition element :: "'a list \<Rightarrow> nat \<Rightarrow> 'a option" where
  "element xs i = (if i < length xs then Some (xs ! i) else None)"

text \<open>
  The date fields \<open>(day, month, year)\<close>.  A missing element is \<open>undefined\<close>, which every later
  use converts to \<open>NaN\<close>.
\<close>

definition dateFields :: "jstring \<Rightarrow> jnum \<times> jnum \<times> jnum" where
  "dateFields dateStr =
     (if 46 \<in> set dateStr then
        (let ns = map Number (split_str 46 dateStr)
         in (Option.bind (element ns 0) (\<lambda>x. x), Option.bind (element ns 1) (\<lambda>x. x),
             Option.bind (element ns 2) (\<lambda>x. x)))
      else
        (let ns = map Number (split_str 47 dateStr)
         in (Option.bind (element ns 1) (\<lambda>x. x), Option.bind (element ns 0) (\<lambda>x. x),
             Option.bind (element ns 2) (\<lambda>x. x))))"

text \<open>\<open>parseInt(x, 10)\<close> of a destructured element: \<open>NaN\<close> for \<open>undefined\<close>.\<close>

definition parseIntElement :: "jstring option \<Rightarrow> jnum" where
  "parseIntElement x = (case x of None \<Rightarrow> None | Some s \<Rightarrow> parseInt s)"

text \<open>The 12-hour to 24-hour conversion of \<open>hours\<close>.\<close>

definition convertHours :: "jstring option \<Rightarrow> jnum \<Rightarrow> jnum" where
  "convertHours amPm hours =
     (if amPm = Some [214, 83] \<or> amPm = Some (str ''PM'') then
        (if hours \<noteq> Some 12 then map_option (\<lambda>h. h + 12) hours else hours)
      else if amPm = Some [214, 214] \<or> amPm = Some (str ''AM'') then
        (if hours = Some 12 then Some 0 else hours)
      else hours)"

definition fullYearOf :: "jnum \<Rightarrow> jnum" where
  "fullYearOf year = (case year of None \<Rightarrow> None | Some y \<Rightarrow> if y < 100 then Some (2000 + y) else Some y)"

text \<open>
  The system phrases, in the order of the source: \<open>goruntu dahil edilmedi\<close>,
  \<open>ses dahil edilmedi\<close>, \<open>guvenlik kodu degisti\<close>, \<open>goruntulu arama\<close>, \<open>sesli arama\<close>, with the
  Turkish letters \<open>U+00F6\<close> (246), \<open>U+00FC\<close> (252), \<open>U+011F\<close> (287) and \<open>U+015F\<close> (351).
\<close>

definition phraseImage :: jstring where
  "phraseImage = [103, 246, 114, 252, 110, 116, 252] @ str '' dahil edilmedi''"

definition phraseAudio :: jstring where
  "phraseAudio = str ''ses dahil edilmedi''"

definition phraseSecurity :: jstring where
  "phraseSecurity = [103, 252] @ str ''venlik kodu de'' @ [287, 105, 351] @ str ''ti''"

definition phraseVideoCall :: jstring where
  "phraseVideoCall = [103, 246, 114, 252, 110, 116, 252, 108, 252] @ str '' arama''"

definition phraseVoiceCall :: jstring where
  "phraseVoiceCall = str ''sesli arama''"

definition phraseType :: "jstring \<Rightarrow> MessageType" where
  "phraseType contentStart =
     (let lowerContent = toLowerCase contentStart
      in if includes_str lowerContent phraseImage then Image
         else if includes_str lowerContent phraseAudio then Audio
         else if includes_str lowerContent phraseSecurity then System
         else if includes_str lowerContent phraseVideoCall then System
         else if includes_str lowerContent phraseVoiceCall then System
         else Text)"

text \<open>The attachment patterns: the angle-bracket pattern first, then the other.\<close>

definition attachMatchNew :: "jstring \<Rightarrow> jstring option" where
  "attachMatchNew contentStart =
     (case exec attachmentRegexNew contentStart of None \<Rightarrow> None | Some caps \<Rightarrow> caps 1)"

definition attachMatchOld :: "jstring \<Rightarrow> jstring option" where
  "attachMatchOld contentStart =
     (case exec attachmentRegexOld contentStart of None \<Rightarrow> None | Some caps \<Rightarrow> caps 1)"

definition attachmentOf :: "jstring \<Rightarrow> jstring option" where
  "attachmentOf contentStart =
     (case attachMatchNew contentStart of
        Some f \<Rightarrow> Some f
      | None \<Rightarrow> attachMatchOld contentStart)"

text \<open>
  The type after the attachment check: \<open>if (attachmentFileName)\<close> holds for a non-empty
  string, and \<open>ext\<close> is the lower-cased last part of the name split at \<open>.\<close>.
\<close>

definition extensionOf :: "jstring \<Rightarrow> jstring" where
  "extensionOf f = toLowerCase (last (split_str 46 f))"

definition typeWithAttachment :: "MessageType \<Rightarrow> jstring option \<Rightarrow> MessageType" where
  "typeWithAttachment t attachment =
     (case attachment of
        None \<Rightarrow> t
      | Some f \<Rightarrow>
          if f = [] then t
          else (let ext = extensionOf f
                in if ext \<in> set [str ''jpg'', str ''jpeg'', str ''png'', str ''webp''] then Image
                   else if ext \<in> set [str ''opus'', str ''mp3'', str ''wav'', str ''aac'', str ''m4a'']
                     then Audio
                   else if ext \<in> set [str ''mp4'', str ''mov''] then Video
                   else t))"

text \<open>\<open>myName ? senderName === myName : false\<close>: the empty string is falsy, as \<open>null\<close> is.\<close>

definition isMeOf :: "jstring option \<Rightarrow> jstring \<Rightarrow> bool" where
  "isMeOf myName senderName =
     (case myName of None \<Rightarrow> False | Some n \<Rightarrow> if n = [] then False else senderName = n)"

text \<open>A string in a template literal: \<open>undefined\<close> prints as such.\<close>

definition templateString :: "jstring option \<Rightarrow> jstring" where
  "templateString x = (case x of None \<Rightarrow> str ''undefined'' | Some s \<Rightarrow> s)"

text \<open>
  The time fields \<open>(hours, minutes, seconds)\<close> after the conversion of the hour, from
  \<open>timeStr.split(':')\<close>, and the string \<open>minutesStr\<close> that \<open>rawDate\<close> shows.
\<close>

definition minutesStrOf :: "jstring \<Rightarrow> jstring option" where
  "minutesStrOf timeStr = element (split_str 58 timeStr) 1"

definition timeFields :: "jstring option \<Rightarrow> jstring \<Rightarrow> jnum \<times> jnum \<times> jnum" where
  "timeFields amPm timeStr =
     (let parts = split_str 58 timeStr;
          hours = parseIntElement (element parts 0);
          minutes = parseIntElement (element parts 1);
          seconds = parseIntElement (element parts 2)
      in (convertHours amPm hours, minutes, seconds))"

text \<open>\<open>new Date(fullYear, month - 1, day, hours, minutes, seconds)\<close>.\<close>

definition timestampOf :: "jstring \<Rightarrow> jstring option \<Rightarrow> jstring \<Rightarrow> jdate" where
  "timestampOf dateStr amPm timeStr =
     (case (dateFields dateStr, timeFields amPm timeStr) of
        ((day, month, year), (hours, minutes, seconds)) \<Rightarrow>
          newDate (fullYearOf year) (map_option (\<lambda>m. m - 1) month) day hours minutes seconds)"

text \<open>The same expression in the host zone \<open>z\<close>: the time value that the message stores there.\<close>

definition timestampOfIn :: "timeZone \<Rightarrow> jstring \<Rightarrow> jstring option \<Rightarrow> jstring \<Rightarrow> jdate" where
  "timestampOfIn z dateStr amPm timeStr =
     (case (dateFields dateStr, timeFields amPm timeStr) of
        ((day, month, year), (hours, minutes, seconds)) \<Rightarrow>
          newDateIn z (fullYearOf year) (map_option (\<lambda>m. m - 1) month) day hours minutes seconds)"

definition typeOf :: "jstring \<Rightarrow> MessageType" where
  "typeOf contentStart = typeWithAttachment (phraseType contentStart) (attachmentOf contentStart)"

text \<open>
  The message that a start line in line \<open>i\<close> opens, from the groups of the match.
\<close>

definition newMessage :: "jstring option \<Rightarrow> nat \<Rightarrow> jstring \<Rightarrow> jstring option \<Rightarrow> jstring
    \<Rightarrow> jstring \<Rightarrow> jstring \<Rightarrow> Message" where
  "newMessage myName i dateStr amPm timeStr senderNameRaw contentStart =
     (let senderName = trim senderNameRaw
      in \<lparr> id_msg = str ''msg-'' @ digitsOf i,
           rawDate = dateStr @ str '' '' @ numToString (fst (timeFields amPm timeStr)) @ str '':''
                     @ templateString (minutesStrOf timeStr),
           timestamp = timestampOf dateStr amPm timeStr,
           sender = senderName,
           content = contentStart,
           isMe = isMeOf myName senderName,
           isSystem = (typeOf contentStart = System),
           type_msg = typeOf contentStart,
           attachmentFileName = attachmentOf contentStart \<rparr>)"

text \<open>
  \<open>participantsMap\<close> is a \<open>Map\<close>: its entries stay in the order of their first insertion.  It
  is an association list; a new key goes to the end, and the entry of a key that is present
  is changed where it is.
\<close>

type_synonym participantsMap = "(jstring \<times> ChatParticipant) list"

definition updateParticipants :: "Message \<Rightarrow> participantsMap \<Rightarrow> participantsMap" where
  "updateParticipants m pm =
     (if \<not> isMe m \<and> type_msg m \<noteq> System then
        (if map_of pm (sender m) = None then
           pm @ [(sender m,
                  \<lparr> name = sender m, lastMessage = content m, lastMessageDate = timestamp m,
                    avatarColor = getRandomColor (sender m) \<rparr>)]
         else
           map (\<lambda>(k, p). if k = sender m
                           then (k, p\<lparr> lastMessage := content m, lastMessageDate := timestamp m \<rparr>)
                           else (k, p)) pm)
      else pm)"

text \<open>\<open>sendersSet.add\<close>: a \<open>Set\<close> keeps its elements in the order of their first insertion.\<close>

definition setAdd :: "'a \<Rightarrow> 'a list \<Rightarrow> 'a list" where
  "setAdd x xs = (if x \<in> set xs then xs else xs @ [x])"

text \<open>The state of the loop: the local variables that it changes.\<close>

record pstate =
  messages_st :: "Message list"
  currentMessage :: "Message option"
  participantsMap_st :: participantsMap
  sendersSet :: "jstring list"

definition pushCurrent :: "pstate \<Rightarrow> Message list" where
  "pushCurrent st =
     (case currentMessage st of None \<Rightarrow> messages_st st | Some m \<Rightarrow> messages_st st @ [m])"

definition cleanLine :: "jstring \<Rightarrow> jstring" where
  "cleanLine l = trim (filter (\<lambda>c. c \<noteq> 8206 \<and> c \<noteq> 8207) l)"

text \<open>The body of the loop for line \<open>i\<close>.\<close>

definition step :: "jstring option \<Rightarrow> nat \<Rightarrow> jstring \<Rightarrow> pstate \<Rightarrow> pstate" where
  "step myName i l st =
     (let line = cleanLine l in
      if line = [] then st
      else
        (case matchStart line of
           Some (dateStr, amPm, timeStr, senderNameRaw, contentStart) \<Rightarrow>
             (let m = newMessage myName i dateStr amPm timeStr senderNameRaw contentStart
              in \<lparr> messages_st = pushCurrent st,
                   currentMessage = Some m,
                   participantsMap_st = updateParticipants m (participantsMap_st st),
                   sendersSet = setAdd (sender m) (sendersSet st) \<rparr>)
         | None \<Rightarrow>
             (case currentMessage st of
                Some m \<Rightarrow> st\<lparr> currentMessage := Some (m\<lparr> content := content m @ [10] @ line \<rparr>) \<rparr>
              | None \<Rightarrow> st)))"

fun loop :: "jstring option \<Rightarrow> nat \<Rightarrow> jstring list \<Rightarrow> pstate \<Rightarrow> pstate" where
  "loop myName i [] st = st"
| "loop myName i (l # ls) st = loop myName (Suc i) ls (step myName i l st)"

text \<open>
  The comparator of the final sort is \<open>b.lastMessageDate.getTime() - a.lastMessageDate.getTime()\<close>;
  \<open>NaN\<close> (an invalid date) counts as \<open>0\<close>.  \<open>Array.prototype.sort\<close> is stable: it is modelled as
  insertion sort, in which an element goes behind the elements that the comparator does not
  put after it.  When all the dates are valid the comparator is a consistent order and the
  result of the sort is the one of the language.  With an invalid date among them the
  comparator is not consistent and the language leaves the order to the implementation; the
  order of the model is then not the order of every engine, and nothing below is proved of
  the order in that case.
\<close>

definition comparePositive :: "ChatParticipant \<Rightarrow> ChatParticipant \<Rightarrow> bool" where
  "comparePositive a b =
     (case (lastMessageDate a, lastMessageDate b) of
        (Some ta, Some tb) \<Rightarrow> tb - ta > 0
      | _ \<Rightarrow> False)"

fun insertSorted :: "ChatParticipant \<Rightarrow> ChatParticipant list \<Rightarrow> ChatParticipant list" where
  "insertSorted a [] = [a]"
| "insertSorted a (b # bs) = (if comparePositive a b then b # insertSorted a bs else a # b # bs)"

definition sortParticipants :: "ChatParticipant list \<Rightarrow> ChatParticipant list" where
  "sortParticipants ps = foldr insertSorted ps []"

definition initialState :: pstate where
  "initialState = \<lparr> messages_st = [], currentMessage = None, participantsMap_st = [], sendersSet = [] \<rparr>"

definition parseChatFile :: "jstring \<Rightarrow> 'z option \<Rightarrow> jstring option \<Rightarrow> 'z ChatData" where
  "parseChatFile text zip_file myName =
     (let lines = split_str 10 text;
          st = loop myName 0 lines initialState
      in \<lparr> participants = sortParticipants (map snd (participantsMap_st st)),
           messages = pushCurrent st,
           allSenders = sendersSet st,
           zipFile = zip_file \<rparr>)"

section \<open>The specification's description of message boundaries\<close>

text \<open>
  These definitions follow the words of the specification, not the loop of the parser.
  The non-blank lines are the lines of the text after the bidi marks are removed and the
  line is trimmed, without the empty ones.  A line is a start line when it matches the
  start pattern, and its content part is the fifth group of the match.
\<close>

definition nonBlank :: "jstring list \<Rightarrow> jstring list" where
  "nonBlank ls = filter (\<lambda>l. l \<noteq> []) (map cleanLine ls)"

definition nonBlankLines :: "jstring \<Rightarrow> jstring list" where
  "nonBlankLines text = nonBlank (split_str 10 text)"

definition isStartLine :: "jstring \<Rightarrow> bool" where
  "isStartLine l \<longleftrightarrow> exec msgStartRegex l \<noteq> None"

definition startContent :: "jstring \<Rightarrow> jstring" where
  "startContent l =
     (case exec msgStartRegex l of
        None \<Rightarrow> []
      | Some caps \<Rightarrow> (case caps 5 of None \<Rightarrow> [] | Some c \<Rightarrow> c))"

text \<open>
  The contents of the messages of a list of non-blank lines: every start line opens a
  message with its content part, the lines up to the next start line are appended to it in
  order, each after a newline, and the lines before the first start line are dropped.
\<close>

definition continuation :: "jstring list \<Rightarrow> jstring" where
  "continuation ls = concat (map (\<lambda>c. 10 # c) (takeWhile (\<lambda>x. \<not> isStartLine x) ls))"

function foldedContents :: "jstring list \<Rightarrow> jstring list" where
  "foldedContents [] = []"
| "foldedContents (l # ls) =
     (if isStartLine l
      then (startContent l @ continuation ls) # foldedContents (dropWhile (\<lambda>x. \<not> isStartLine x) ls)
      else foldedContents ls)"
  by pat_completeness auto
termination
  by (relation "measure length") (auto simp: length_dropWhile_le less_Suc_eq_le)

text \<open>
  The contents that the specification describes when a message with content \<open>c\<close> is open
  (\<open>Some c\<close>) or none is (\<open>None\<close>).
\<close>

fun contentsFrom :: "jstring option \<Rightarrow> jstring list \<Rightarrow> jstring list" where
  "contentsFrom None ls = foldedContents ls"
| "contentsFrom (Some c) ls =
     (c @ continuation ls) # foldedContents (dropWhile (\<lambda>x. \<not> isStartLine x) ls)"

section \<open>The specification's description of the date and the hour\<close>

text \<open>
  The hour of the 24-hour clock as the specification gives it: with a PM marker and an hour
  other than \<open>12\<close>, add \<open>12\<close>; with an AM marker and the hour \<open>12\<close>, \<open>0\<close>; the hour itself in
  every other case.  The year: a value below \<open>100\<close> has \<open>2000\<close> added.
\<close>

definition isPM :: "jstring option \<Rightarrow> bool" where
  "isPM amPm \<longleftrightarrow> amPm = Some [214, 83] \<or> amPm = Some (str ''PM'')"

definition isAM :: "jstring option \<Rightarrow> bool" where
  "isAM amPm \<longleftrightarrow> amPm = Some [214, 214] \<or> amPm = Some (str ''AM'')"

definition hour24 :: "jstring option \<Rightarrow> int \<Rightarrow> int" where
  "hour24 amPm h =
     (if isPM amPm \<and> h \<noteq> 12 then h + 12 else if isAM amPm \<and> h = 12 then 0 else h)"

definition windowYear :: "int \<Rightarrow> int" where
  "windowYear y = (if y < 100 then 2000 + y else y)"

section \<open>The participants that a list of messages calls for\<close>

text \<open>
  A message qualifies for the participant list when it is not from the user and is not a
  system message.  \<open>entryOk ms (k, p)\<close> says that the entry \<open>p\<close> under the key \<open>k\<close> is the one
  that the messages \<open>ms\<close> call for: it has the name \<open>k\<close> and the colour of \<open>k\<close>, and its last
  message and date are those of the last qualifying message of \<open>k\<close> in \<open>ms\<close>, in the order of
  the input.  The entry has the content that the message had when it was opened, which is
  the first line of its content: the lines appended later are not in \<open>lastMessage\<close>.
\<close>

definition firstLine :: "jstring \<Rightarrow> jstring" where
  "firstLine s = takeWhile (\<lambda>c. c \<noteq> 10) s"

definition qualifies :: "Message \<Rightarrow> bool" where
  "qualifies m \<longleftrightarrow> \<not> isMe m \<and> type_msg m \<noteq> System"

definition qualifyingFrom :: "jstring \<Rightarrow> Message list \<Rightarrow> Message list" where
  "qualifyingFrom k ms = filter (\<lambda>m. sender m = k \<and> qualifies m) ms"

definition entryOk :: "Message list \<Rightarrow> jstring \<times> ChatParticipant \<Rightarrow> bool" where
  "entryOk ms e =
     (case e of (k, p) \<Rightarrow>
        name p = k \<and> avatarColor p = getRandomColor k
        \<and> qualifyingFrom k ms \<noteq> []
        \<and> lastMessageDate p = timestamp (last (qualifyingFrom k ms))
        \<and> lastMessage p = firstLine (content (last (qualifyingFrom k ms))))"

definition participantsInv :: "Message list \<Rightarrow> participantsMap \<Rightarrow> bool" where
  "participantsInv ms pm \<longleftrightarrow>
     distinct (map fst pm) \<and> list_all (entryOk ms) pm
     \<and> list_all (\<lambda>m. qualifies m \<longrightarrow> sender m \<in> fst ` set pm) ms"

section \<open>Shapes of the date and time tokens\<close>

text \<open>
  \<open>dateShape w a s1 b s2 c\<close>: the token \<open>w\<close> is \<open>a s1 b s2 c\<close> with one or two digits \<open>a\<close>, one
  or two digits \<open>b\<close>, two to four digits \<open>c\<close> and separators \<open>s1\<close>, \<open>s2\<close> among \<open>.\<close> and \<open>/\<close>.
  \<open>timeShape w h m s\<close>: the token \<open>w\<close> is \<open>h:m:s\<close> with one or two digits \<open>h\<close> and two digits
  \<open>m\<close> and \<open>s\<close>.
\<close>

definition dateShape :: "jstring \<Rightarrow> jstring \<Rightarrow> cu \<Rightarrow> jstring \<Rightarrow> cu \<Rightarrow> jstring \<Rightarrow> bool" where
  "dateShape w a s1 b s2 c \<longleftrightarrow>
     w = a @ [s1] @ b @ [s2] @ c
     \<and> list_all isDigit a \<and> 1 \<le> length a \<and> length a \<le> 2 \<and> isDateSep s1
     \<and> list_all isDigit b \<and> 1 \<le> length b \<and> length b \<le> 2 \<and> isDateSep s2
     \<and> list_all isDigit c \<and> 2 \<le> length c \<and> length c \<le> 4"

definition timeShape :: "jstring \<Rightarrow> jstring \<Rightarrow> jstring \<Rightarrow> jstring \<Rightarrow> bool" where
  "timeShape w h m s \<longleftrightarrow>
     w = h @ [58] @ m @ [58] @ s
     \<and> list_all isDigit h \<and> 1 \<le> length h \<and> length h \<le> 2
     \<and> list_all isDigit m \<and> length m = 2
     \<and> list_all isDigit s \<and> length s = 2"

section \<open>Example inputs\<close>

abbreviation lineAlice :: jstring where
  "lineAlice \<equiv> str ''[28.11.2024 14:05:00] Alice: Hello''"

abbreviation lineWorld :: jstring where
  "lineWorld \<equiv> str ''world''"

abbreviation lineBob :: jstring where
  "lineBob \<equiv> str ''[28.11.2024 14:06:00] Bob: Hi''"

abbreviation lineAliceEarlier :: jstring where
  "lineAliceEarlier \<equiv> str ''[28.11.2024 13:00:00] Alice: Bye''"

abbreviation lineNoSender :: jstring where
  "lineNoSender \<equiv> str ''[28.11.2024 14:05:00] : hi''"

abbreviation lineUS :: jstring where
  "lineUS \<equiv> str ''[6/27/24 PM 01:05:00] Bob: ok''"

abbreviation lineHour25 :: jstring where
  "lineHour25 \<equiv> str ''[28.11.2024 25:05:00] A: x''"

text \<open>A date token with two different separators, and a local time that \<open>istanbul2015\<close> skips.\<close>

abbreviation lineMixed :: jstring where
  "lineMixed \<equiv> str ''[28.11/2024 14:05:00] A: x''"

abbreviation lineSkipped :: jstring where
  "lineSkipped \<equiv> str ''[29.03.2015 03:30:00] A: x''"

text \<open>
  Contents with attachment references: the missing-image phrase with a video, both
  attachment patterns at once, and a PDF document.
\<close>

definition contentVideo :: jstring where
  "contentVideo = [103, 246, 114, 252, 110, 116, 252] @ str '' dahil edilmedi <a.mp4 eklendi>''"

definition lineVideo :: jstring where
  "lineVideo = str ''[28.11.2024 14:05:00] Bob: '' @ contentVideo"

abbreviation contentBoth :: jstring where
  "contentBoth \<equiv> str ''<a.jpg eklendi> b.png (file attached)''"

abbreviation lineBoth :: jstring where
  "lineBoth \<equiv> str ''[28.11.2024 14:05:00] Bob: <a.jpg eklendi> b.png (file attached)''"


abbreviation linePdf :: jstring where
  "linePdf \<equiv> str ''[28.11.2024 14:05:00] Bob: report.pdf (file attached)''"

text \<open>The end-to-end scenario of the specification, and a chat that is not in the order of time.\<close>

definition scenarioText :: jstring where
  "scenarioText = lineAlice @ [10] @ lineWorld @ [10] @ lineBob"

definition unorderedText :: jstring where
  "unorderedText = lineAlice @ [10] @ lineBob @ [10] @ lineAliceEarlier"

section \<open>Properties of the sender colour\<close>

lemma length_colors: "length colors = 13"
  by (simp add: colors_def)

lemma hashStep_word: "(word_of_int (hashStep h c) :: 32 word) = hashStep32 (word_of_int h) c"
  by (simp add: hashStep_def hashStep32_def shl5_def)

lemma hashLoop_word:
  "(word_of_int (foldl hashStep h nm) :: 32 word) = foldl hashStep32 (word_of_int h) nm"
  by (induction nm arbitrary: h) (simp_all add: hashStep_word)

lemma shl5_bound: "\<bar>shl5 h\<bar> \<le> 2 ^ 31"
  using sint_ge [of "push_bit 5 (word_of_int h :: 32 word)"]
    sint_lt [of "push_bit 5 (word_of_int h :: 32 word)"]
  by (simp add: shl5_def)

lemma hashStep_bound: "c < 65536 \<Longrightarrow> \<bar>hashStep h c\<bar> \<le> \<bar>h\<bar> + 2147549183"
  using shl5_bound [of h] by (simp add: hashStep_def)

lemma foldl_hashStep_bound:
  "\<forall>c \<in> set nm. c < 65536 \<Longrightarrow>
     \<bar>foldl hashStep h nm\<bar> \<le> \<bar>h\<bar> + 2147549183 * int (length nm)"
proof (induction nm arbitrary: h)
  case Nil
  then show ?case by simp
next
  case (Cons c cs)
  have "\<bar>foldl hashStep (hashStep h c) cs\<bar> \<le> \<bar>hashStep h c\<bar> + 2147549183 * int (length cs)"
    using Cons by simp
  moreover have "\<bar>hashStep h c\<bar> \<le> \<bar>h\<bar> + 2147549183"
    using Cons.prems by (simp add: hashStep_bound)
  ultimately show ?case by simp
qed

lemma hashLoop_bound:
  assumes "\<forall>c \<in> set nm. c < 65536" and "length nm < 2 ^ 21"
  shows "\<bar>hashLoop nm\<bar> < 2 ^ 53"
proof -
  have "\<bar>hashLoop nm\<bar> \<le> 2147549183 * int (length nm)"
    using foldl_hashStep_bound [OF assms(1), of 0] by (simp add: hashLoop_def)
  moreover have "int (length nm) < 2097152"
    using assms(2) by simp
  ultimately show ?thesis by simp
qed

text \<open>Every intermediate hash of a name of fewer than \<open>2^21\<close> code units.\<close>

lemma hashLoop_prefix_bound:
  assumes "length nm < 2 ^ 21" and "\<forall>c \<in> set nm. c < 65536"
  shows "\<bar>hashLoop (take k nm)\<bar> < 2 ^ 53 - 2 ^ 32"
proof -
  have "\<forall>c \<in> set (take k nm). c < 65536"
    using assms(2) by (auto dest: in_set_takeD)
  from foldl_hashStep_bound [OF this, of 0]
  have "\<bar>hashLoop (take k nm)\<bar> \<le> 2147549183 * int (length (take k nm))"
    by (simp add: hashLoop_def)
  moreover have "int (length (take k nm)) < 2097152"
    using assms(1) by simp
  ultimately show ?thesis by simp
qed

section \<open>The matcher only returns matches\<close>

lemma rep_sound:
  "rep g p mn mx i cs caps k = Some res \<Longrightarrow>
   \<exists>w cs'. cs = w @ cs' \<and> list_all p w \<and> mn \<le> length w
     \<and> (case mx of None \<Rightarrow> True | Some n \<Rightarrow> length w \<le> n)
     \<and> k (i + length w) cs' caps = Some res"
proof (induction cs arbitrary: mn mx i)
  case Nil
  then show ?case by (auto split: if_splits option.splits)
next
  case (Cons c cs)
  show ?case
  proof (cases "mx = Some 0 \<or> \<not> p c")
    case True
    with Cons.prems have "mn = 0" "k i (c # cs) caps = Some res"
      by (auto split: if_splits)
    then show ?thesis
      by (intro exI [of _ "[]"] exI [of _ "c # cs"]) (auto split: option.splits)
  next
    case False
    then have pc: "p c" and mx0: "mx \<noteq> Some 0" by auto
    consider (more) "rep g p (mn - 1) (decr mx) (Suc i) cs caps k = Some res"
      | (stop) "mn = 0" "k i (c # cs) caps = Some res"
      using Cons.prems False by (auto split: if_splits option.splits)
    then show ?thesis
    proof cases
      case more
      from Cons.IH [OF more] obtain w cs' where w: "cs = w @ cs'" "list_all p w" "mn - 1 \<le> length w"
        "(case decr mx of None \<Rightarrow> True | Some n \<Rightarrow> length w \<le> n)"
        "k (Suc i + length w) cs' caps = Some res"
        by blast
      have "case mx of None \<Rightarrow> True | Some n \<Rightarrow> length (c # w) \<le> n"
        using w(4) mx0 by (cases mx) auto
      with w pc show ?thesis
        by (intro exI [of _ "c # w"] exI [of _ cs']) auto
    next
      case stop
      then show ?thesis
        by (intro exI [of _ "[]"] exI [of _ "c # cs"]) (auto split: option.splits)
    qed
  qed
qed

lemma re_match_sound:
  "re_match r i cs caps k = Some res \<Longrightarrow>
   \<exists>w cs' caps'. cs = w @ cs' \<and> matches r i caps w caps' \<and> k (i + length w) cs' caps' = Some res"
proof (induction r arbitrary: i cs caps k)
  case Eps
  then have "k i cs caps = Some res" by simp
  then show ?case
    by (intro exI [of _ "[]"] exI [of _ cs] exI [of _ caps]) (auto intro: matches.intros)
next
  case Bol
  then have "i = 0" "k i cs caps = Some res" by (auto split: if_splits)
  then show ?case
    by (intro exI [of _ "[]"] exI [of _ cs] exI [of _ caps]) (auto intro: matches.intros)
next
  case (Chr p)
  then obtain c cs' where "cs = c # cs'" "p c" "k (Suc i) cs' caps = Some res"
    by (cases cs) (auto split: if_splits)
  then show ?case
    by (intro exI [of _ "[c]"] exI [of _ cs'] exI [of _ caps]) (auto intro: matches.intros)
next
  case (Seq a b)
  from Seq.prems have "re_match a i cs caps (\<lambda>i' cs' caps'. re_match b i' cs' caps' k) = Some res"
    by simp
  from Seq.IH(1) [OF this] obtain w1 cs1 caps1 where
    1: "cs = w1 @ cs1" "matches a i caps w1 caps1" "re_match b (i + length w1) cs1 caps1 k = Some res"
    by blast
  from Seq.IH(2) [OF 1(3)] obtain w2 cs2 caps2 where
    2: "cs1 = w2 @ cs2" "matches b (i + length w1) caps1 w2 caps2"
       "k (i + length w1 + length w2) cs2 caps2 = Some res"
    by blast
  have "cs = (w1 @ w2) @ cs2 \<and> matches (Seq a b) i caps (w1 @ w2) caps2
      \<and> k (i + length (w1 @ w2)) cs2 caps2 = Some res"
    using 1 2 by (auto intro: matches.intros simp: add.assoc)
  then show ?case by blast
next
  case (Alt a b)
  show ?case
  proof (cases "re_match a i cs caps k")
    case None
    with Alt.prems have "re_match b i cs caps k = Some res" by simp
    from Alt.IH(2) [OF this] show ?thesis by (blast intro: matches.intros)
  next
    case (Some r)
    with Alt.prems have "re_match a i cs caps k = Some res" by simp
    from Alt.IH(1) [OF this] show ?thesis by (blast intro: matches.intros)
  qed
next
  case (Rep g mn mx p)
  then have "rep g p mn mx i cs caps k = Some res" by simp
  from rep_sound [OF this] obtain w cs' where "cs = w @ cs'" "list_all p w" "mn \<le> length w"
    "(case mx of None \<Rightarrow> True | Some n \<Rightarrow> length w \<le> n)" "k (i + length w) cs' caps = Some res"
    by blast
  then show ?case
    by (intro exI [of _ w] exI [of _ cs'] exI [of _ caps]) (auto intro: matches.intros)
next
  case (Opt a)
  show ?case
  proof (cases "re_match a i cs caps k")
    case None
    with Opt.prems have "k i cs caps = Some res" by simp
    then show ?thesis
      by (intro exI [of _ "[]"] exI [of _ cs] exI [of _ caps]) (auto intro: matches.intros)
  next
    case (Some r)
    with Opt.prems have "re_match a i cs caps k = Some res" by simp
    from Opt.IH [OF this] show ?thesis by (blast intro: matches.intros)
  qed
next
  case (Grp n a)
  from Grp.prems have
    "re_match a i cs caps (\<lambda>i' cs' caps'. k i' cs' (caps'(n \<mapsto> take (i' - i) cs))) = Some res"
    by simp
  from Grp.IH [OF this] obtain w cs' caps' where
    w: "cs = w @ cs'" "matches a i caps w caps'"
       "k (i + length w) cs' (caps'(n \<mapsto> take (i + length w - i) cs)) = Some res"
    by blast
  then have "cs = w @ cs' \<and> matches (Grp n a) i caps w (caps'(n \<mapsto> w))
      \<and> k (i + length w) cs' (caps'(n \<mapsto> w)) = Some res"
    by (auto intro: matches.intros)
  then show ?case by blast
qed

lemma execFrom_sound:
  "execFrom r i s = Some caps' \<Longrightarrow>
   \<exists>pre w post. s = pre @ w @ post \<and> matches r (i + length pre) Map.empty w caps'"
proof (induction s arbitrary: i)
  case Nil
  then have "re_match r i [] Map.empty (\<lambda>i' cs' caps'. Some caps') = Some caps'" by simp
  from re_match_sound [OF this] show ?case by auto
next
  case (Cons c cs)
  show ?case
  proof (cases "re_match r i (c # cs) Map.empty (\<lambda>i' cs' caps'. Some caps')")
    case None
    with Cons.prems have "execFrom r (Suc i) cs = Some caps'" by simp
    from Cons.IH [OF this] obtain pre w post where
      "cs = pre @ w @ post" "matches r (Suc i + length pre) Map.empty w caps'" by blast
    then show ?thesis
      by (intro exI [of _ "c # pre"] exI [of _ w] exI [of _ post]) auto
  next
    case (Some a)
    with Cons.prems have "re_match r i (c # cs) Map.empty (\<lambda>i' cs' caps'. Some caps') = Some caps'"
      by simp
    from re_match_sound [OF this] obtain w cs' where
      "c # cs = w @ cs'" "matches r i Map.empty w caps'" by auto
    then show ?thesis
      by (intro exI [of _ "[]"] exI [of _ w] exI [of _ cs']) auto
  qed
qed


inductive_cases matches_EpsE: "matches Eps i caps w caps'"
inductive_cases matches_BolE: "matches Bol i caps w caps'"
inductive_cases matches_ChrE: "matches (Chr p) i caps w caps'"
inductive_cases matches_SeqE: "matches (Seq a b) i caps w caps'"
inductive_cases matches_AltE: "matches (Alt a b) i caps w caps'"
inductive_cases matches_RepE: "matches (Rep g mn mx p) i caps w caps'"
inductive_cases matches_OptE: "matches (Opt a) i caps w caps'"
inductive_cases matches_GrpE: "matches (Grp n a) i caps w caps'"

lemmas matches_elims = matches_EpsE matches_BolE matches_ChrE matches_SeqE matches_AltE
  matches_RepE matches_GrpE

lemma matches_dateRegex:
  assumes "matches dateRegex i caps w caps'"
  shows "caps' = caps \<and> (\<exists>a s1 b s2 c. dateShape w a s1 b s2 c)"
  using assms unfolding dateRegex_def seqs_def dateShape_def
  by (auto elim!: matches_elims) blast

lemma matches_timeRegex:
  assumes "matches timeRegex i caps w caps'"
  shows "caps' = caps \<and> (\<exists>h m s. timeShape w h m s)"
  using assms unfolding timeRegex_def seqs_def timeShape_def
  by (auto elim!: matches_elims) blast

lemma matches_markerRegex:
  assumes "matches markerRegex i caps w caps'"
  shows "caps' = caps \<and> w \<in> {[214, 214], [214, 83], str ''AM'', str ''PM''}"
  using assms unfolding markerRegex_def seqs_def alts_def lit_def str_def
  by (auto elim!: matches_elims)


lemma matches_msgStartRegex:
  assumes "matches msgStartRegex i caps0 w caps"
  shows "\<exists>d t s c. caps 1 = Some d \<and> caps 3 = Some t \<and> caps 4 = Some s \<and> caps 5 = Some c
     \<and> (\<exists>a s1 b s2 y. dateShape d a s1 b s2 y) \<and> (\<exists>h m se. timeShape t h m se)
     \<and> (caps 2 = caps0 2 \<or> (\<exists>mk. caps 2 = Some mk \<and> mk \<in> {[214, 214], [214, 83], str ''AM'', str ''PM''}))
     \<and> list_all isDot s \<and> list_all isDot c"
  using assms
  apply (simp add: msgStartRegex_def seqs_def)
  apply (elim matches_SeqE matches_GrpE matches_BolE matches_ChrE matches_RepE matches_EpsE matches_OptE)
   apply (auto dest!: matches_dateRegex matches_timeRegex matches_markerRegex)
           apply blast+
  done

lemma exec_msgStartRegex:
  assumes "exec msgStartRegex line = Some caps"
  shows "\<exists>d t s c. caps 1 = Some d \<and> caps 3 = Some t \<and> caps 4 = Some s \<and> caps 5 = Some c
     \<and> (\<exists>a s1 b s2 y. dateShape d a s1 b s2 y) \<and> (\<exists>h m se. timeShape t h m se)
     \<and> caps 2 \<in> {None, Some [214, 214], Some [214, 83], Some (str ''AM''), Some (str ''PM'')}
     \<and> list_all isDot s \<and> list_all isDot c"
proof -
  from execFrom_sound [OF assms [unfolded exec_def]]
  obtain pre w post where "line = pre @ w @ post"
    "matches msgStartRegex (0 + length pre) Map.empty w caps"
    by blast
  from matches_msgStartRegex [OF this(2)] show ?thesis by auto blast+
qed

section \<open>Splitting and reading numbers\<close>

lemma split_str_not_Nil: "split_str d s \<noteq> []"
  by (induction s) (auto split: list.splits)

lemma split_str_no_sep: "d \<notin> set a \<Longrightarrow> split_str d a = [a]"
  by (induction a) auto

lemma split_str_append: "d \<notin> set a \<Longrightarrow> split_str d (a @ d # rest) = a # split_str d rest"
  by (induction a) auto

lemma digits_no_sep:
  assumes "list_all isDigit a"
  shows "46 \<notin> set a" and "47 \<notin> set a" and "58 \<notin> set a"
  using assms by (auto simp: list_all_iff isDigit_def)

lemma foldl_digits_bounds:
  "list_all isDigit a \<Longrightarrow> 0 \<le> n \<Longrightarrow>
     0 \<le> foldl (\<lambda>n c. 10 * n + (int c - 48)) n a
     \<and> foldl (\<lambda>n c. 10 * n + (int c - 48)) n a < (n + 1) * 10 ^ length a"
proof (induction a arbitrary: n)
  case Nil
  then show ?case by simp
next
  case (Cons c cs)
  from Cons.prems(1) have dc: "isDigit c" and cs: "list_all isDigit cs"
    by simp_all
  from dc have c: "48 \<le> c" "c \<le> 57"
    by (simp_all add: isDigit_def)
  define n' where "n' = 10 * n + (int c - 48)"
  have n0: "0 \<le> n'" and n1: "n' + 1 \<le> (n + 1) * 10"
    using c Cons.prems(2) by (simp_all add: n'_def)
  from Cons.IH [OF cs n0] have ih: "0 \<le> foldl (\<lambda>n c. 10 * n + (int c - 48)) n' cs"
    "foldl (\<lambda>n c. 10 * n + (int c - 48)) n' cs < (n' + 1) * 10 ^ length cs"
    by blast+
  have le: "(n' + 1) * 10 ^ length cs \<le> ((n + 1) * 10) * 10 ^ length cs"
    using n1 by (intro mult_right_mono) simp_all
  have "foldl (\<lambda>n c. 10 * n + (int c - 48)) n' cs < ((n + 1) * 10) * 10 ^ length cs"
    by (rule less_le_trans [OF ih(2) le])
  also have "\<dots> = (n + 1) * 10 ^ length (c # cs)"
    by simp
  finally have "foldl (\<lambda>n c. 10 * n + (int c - 48)) n' cs < (n + 1) * 10 ^ length (c # cs)" .
  with ih(1) show ?case by (simp add: n'_def)
qed

lemma digitsValue_bounds:
  assumes "list_all isDigit a"
  shows "0 \<le> digitsValue a" and "digitsValue a < 10 ^ length a"
  using foldl_digits_bounds [OF assms, of 0] by (simp_all add: digitsValue_def)

lemma Number_digits: "list_all isDigit a \<Longrightarrow> Number a = Some (digitsValue a)"
  by (simp add: Number_def)

lemma Number_not_digits: "\<not> list_all isDigit a \<Longrightarrow> Number a = None"
  by (simp add: Number_def)

lemma digit_not_space: "isDigit c \<Longrightarrow> \<not> isWhiteSpace c"
  by (auto simp: isDigit_def isWhiteSpace_def)

lemma parseInt_digits:
  assumes "list_all isDigit a" and "a \<noteq> []"
  shows "parseInt a = Some (digitsValue a)"
proof -
  obtain c cs where a: "a = c # cs" using assms(2) by (cases a) auto
  with assms(1) have c: "isDigit c" by simp
  then have "\<not> isWhiteSpace c" "c \<noteq> 45" "c \<noteq> 43"
    by (auto simp: isDigit_def isWhiteSpace_def)
  moreover have "takeWhile isDigit a = a"
    using assms(1) by (simp add: list_all_iff)
  ultimately show ?thesis
    using a by (simp add: parseInt_def Let_def)
qed

lemma timeFields_shape:
  assumes "timeShape t h m s"
  shows "timeFields amPm t =
           (convertHours amPm (Some (digitsValue h)), Some (digitsValue m), Some (digitsValue s))"
    and "minutesStrOf t = Some m"
proof -
  from assms have t: "t = h @ 58 # m @ 58 # s" and d: "list_all isDigit h" "list_all isDigit m"
    "list_all isDigit s" and ne: "h \<noteq> []" "m \<noteq> []" "s \<noteq> []"
    by (auto simp: timeShape_def)
  have "split_str 58 t = [h, m, s]"
    using d by (simp add: t split_str_append split_str_no_sep digits_no_sep)
  then show "timeFields amPm t =
           (convertHours amPm (Some (digitsValue h)), Some (digitsValue m), Some (digitsValue s))"
    and "minutesStrOf t = Some m"
    using d ne by (simp_all add: timeFields_def minutesStrOf_def element_def parseIntElement_def parseInt_digits)
qed

lemma dateFields_dots:
  assumes "dateShape w a 46 b 46 c"
  shows "dateFields w = (Some (digitsValue a), Some (digitsValue b), Some (digitsValue c))"
proof -
  from assms have w: "w = a @ 46 # b @ 46 # c" and d: "list_all isDigit a" "list_all isDigit b"
    "list_all isDigit c"
    by (auto simp: dateShape_def)
  have "split_str 46 w = [a, b, c]"
    using d by (simp add: w split_str_append split_str_no_sep digits_no_sep)
  moreover have "46 \<in> set w" by (simp add: w)
  ultimately show ?thesis
    using d by (simp add: dateFields_def element_def Number_digits)
qed

lemma dateFields_slashes:
  assumes "dateShape w a 47 b 47 c"
  shows "dateFields w = (Some (digitsValue b), Some (digitsValue a), Some (digitsValue c))"
proof -
  from assms have w: "w = a @ 47 # b @ 47 # c" and d: "list_all isDigit a" "list_all isDigit b"
    "list_all isDigit c"
    by (auto simp: dateShape_def)
  have "split_str 47 w = [a, b, c]"
    using d by (simp add: w split_str_append split_str_no_sep digits_no_sep)
  moreover have "46 \<notin> set w" using d by (simp add: w digits_no_sep)
  ultimately show ?thesis
    using d by (simp add: dateFields_def element_def Number_digits)
qed

text \<open>With two different separators the year is missing and the month or the day is not a number.\<close>

lemma dateFields_mixed:
  assumes "dateShape w a s1 b s2 c" and "s1 \<noteq> s2"
  shows "snd (snd (dateFields w)) = None"
proof -
  from assms have w: "w = a @ s1 # b @ s2 # c" and d: "list_all isDigit a" "list_all isDigit b"
    "list_all isDigit c" and s: "isDateSep s1" "isDateSep s2"
    by (auto simp: dateShape_def)
  from s assms(2) consider "s1 = 46" "s2 = 47" | "s1 = 47" "s2 = 46"
    by (auto simp: isDateSep_def)
  then show ?thesis
  proof cases
    case 1
    have "46 \<notin> set (b @ 47 # c)" using d by (simp add: digits_no_sep)
    then have "split_str 46 w = [a, b @ 47 # c]"
      using d 1 by (simp add: w split_str_append split_str_no_sep digits_no_sep del: set_append)
    moreover have "46 \<in> set w" using 1 by (simp add: w)
    ultimately show ?thesis by (simp add: dateFields_def element_def)
  next
    case 2
    have "46 \<notin> set (a @ 47 # b)" using d by (simp add: digits_no_sep)
    then have "split_str 46 ((a @ 47 # b) @ 46 # c) = [a @ 47 # b, c]"
      using d by (simp add: split_str_append split_str_no_sep digits_no_sep del: set_append append_assoc)
    moreover have "46 \<in> set w" using 2 by (simp add: w)
    ultimately show ?thesis using 2 by (simp add: dateFields_def element_def w)
  qed
qed

section \<open>The groups of a start line\<close>

lemma matchStart_None_iff: "matchStart line = None \<longleftrightarrow> exec msgStartRegex line = None"
proof (cases "exec msgStartRegex line")
  case None
  then show ?thesis by (simp add: matchStart_def)
next
  case (Some caps)
  from exec_msgStartRegex [OF Some] obtain d t s c where
    "caps 1 = Some d" "caps 3 = Some t" "caps 4 = Some s" "caps 5 = Some c" by blast
  with Some show ?thesis by (simp add: matchStart_def)
qed

lemma matchStart_Some:
  assumes "matchStart line = Some (d, a, t, s, c)"
  shows "\<exists>caps. exec msgStartRegex line = Some caps \<and> caps 1 = Some d \<and> caps 2 = a
     \<and> caps 3 = Some t \<and> caps 4 = Some s \<and> caps 5 = Some c"
  using assms by (auto simp: matchStart_def split: option.splits)

lemma matchStart_shapes:
  assumes "matchStart line = Some (d, a, t, s, c)"
  shows "\<exists>x s1 y s2 z. dateShape d x s1 y s2 z" and "\<exists>h m se. timeShape t h m se"
    and "a \<in> {None, Some [214, 214], Some [214, 83], Some (str ''AM''), Some (str ''PM'')}"
    and "list_all isDot s" and "list_all isDot c"
proof -
  from matchStart_Some [OF assms] obtain caps where caps: "exec msgStartRegex line = Some caps"
    "caps 1 = Some d" "caps 2 = a" "caps 3 = Some t" "caps 4 = Some s" "caps 5 = Some c"
    by blast
  from exec_msgStartRegex [OF caps(1)] caps(2-)
  show "\<exists>x s1 y s2 z. dateShape d x s1 y s2 z" and "\<exists>h m se. timeShape t h m se"
    and "a \<in> {None, Some [214, 214], Some [214, 83], Some (str ''AM''), Some (str ''PM'')}"
    and "list_all isDot s" and "list_all isDot c"
    by auto
qed

lemma isStartLine_matchStart: "isStartLine line \<longleftrightarrow> matchStart line \<noteq> None"
  by (simp add: isStartLine_def matchStart_None_iff)

lemma startContent_matchStart:
  "matchStart line = Some (d, a, t, s, c) \<Longrightarrow> startContent line = c"
  by (auto simp: startContent_def dest!: matchStart_Some)

section \<open>The fields of a new message\<close>

lemma newMessage_fields [simp]:
  "content (newMessage myName i d a t s c) = c"
  "sender (newMessage myName i d a t s c) = trim s"
  "isMe (newMessage myName i d a t s c) = isMeOf myName (trim s)"
  "type_msg (newMessage myName i d a t s c) = typeOf c"
  "isSystem (newMessage myName i d a t s c) = (typeOf c = System)"
  "attachmentFileName (newMessage myName i d a t s c) = attachmentOf c"
  "timestamp (newMessage myName i d a t s c) = timestampOf d a t"
  "id_msg (newMessage myName i d a t s c) = str ''msg-'' @ digitsOf i"
  by (simp_all add: newMessage_def Let_def)

section \<open>The loop\<close>

lemma step_blank: "cleanLine l = [] \<Longrightarrow> step myName i l st = st"
  by (simp add: step_def)

lemma step_start:
  assumes "cleanLine l \<noteq> []" and "matchStart (cleanLine l) = Some (d, a, t, s, c)"
  shows "step myName i l st =
     \<lparr> messages_st = pushCurrent st,
       currentMessage = Some (newMessage myName i d a t s c),
       participantsMap_st = updateParticipants (newMessage myName i d a t s c) (participantsMap_st st),
       sendersSet = setAdd (trim s) (sendersSet st) \<rparr>"
  using assms by (simp add: step_def Let_def)

lemma step_continue:
  assumes "cleanLine l \<noteq> []" and "matchStart (cleanLine l) = None" and "currentMessage st = Some m"
  shows "step myName i l st = st\<lparr> currentMessage := Some (m\<lparr> content := content m @ 10 # cleanLine l \<rparr>) \<rparr>"
  using assms by (simp add: step_def)

lemma step_drop:
  assumes "cleanLine l \<noteq> []" and "matchStart (cleanLine l) = None" and "currentMessage st = None"
  shows "step myName i l st = st"
  using assms by (simp add: step_def)

text \<open>The four cases of the loop body.\<close>

lemma step_cases:
  obtains (blank) "cleanLine l = []" "step myName i l st = st"
  | (start) d a t s c where "cleanLine l \<noteq> []" "matchStart (cleanLine l) = Some (d, a, t, s, c)"
      "step myName i l st =
         \<lparr> messages_st = pushCurrent st,
           currentMessage = Some (newMessage myName i d a t s c),
           participantsMap_st = updateParticipants (newMessage myName i d a t s c) (participantsMap_st st),
           sendersSet = setAdd (trim s) (sendersSet st) \<rparr>"
  | (continue) m where "cleanLine l \<noteq> []" "matchStart (cleanLine l) = None" "currentMessage st = Some m"
      "step myName i l st = st\<lparr> currentMessage := Some (m\<lparr> content := content m @ 10 # cleanLine l \<rparr>) \<rparr>"
  | (drop) "cleanLine l \<noteq> []" "matchStart (cleanLine l) = None" "currentMessage st = None"
      "step myName i l st = st"
proof (cases "cleanLine l = []")
  case True
  then show ?thesis using blank step_blank by blast
next
  case False
  show ?thesis
  proof (cases "matchStart (cleanLine l)")
    case None
    then show ?thesis
      using False continue drop step_continue step_drop by (cases "currentMessage st") blast+
  next
    case (Some g)
    then obtain d a t s c where "matchStart (cleanLine l) = Some (d, a, t, s, c)"
      by (cases g) auto
    then show ?thesis using False start step_start by blast
  qed
qed

lemma loop_invariant:
  assumes "P st" and "\<And>i l st. P st \<Longrightarrow> P (step myName i l st)"
  shows "P (loop myName i ls st)"
  using assms(1) by (induction ls arbitrary: i st) (auto intro: assms(2))

lemma pushCurrent_start [simp]:
  "pushCurrent \<lparr> messages_st = ms, currentMessage = Some m, participantsMap_st = pm, sendersSet = ss \<rparr>
     = ms @ [m]"
  by (simp add: pushCurrent_def)

lemma pushCurrent_Some: "currentMessage st = Some m \<Longrightarrow> pushCurrent st = messages_st st @ [m]"
  by (simp add: pushCurrent_def)

lemma pushCurrent_None: "currentMessage st = None \<Longrightarrow> pushCurrent st = messages_st st"
  by (simp add: pushCurrent_def)

lemma pushCurrent_continue [simp]:
  "pushCurrent (st\<lparr> currentMessage := Some m \<rparr>) = messages_st st @ [m]"
  by (simp add: pushCurrent_def)

text \<open>What the loop body does to the list of the messages so far, the open one last.\<close>

lemma pushCurrent_step:
  obtains (same) "pushCurrent (step myName i l st) = pushCurrent st"
      "participantsMap_st (step myName i l st) = participantsMap_st st"
      "sendersSet (step myName i l st) = sendersSet st"
  | (start) d a t s c where "cleanLine l \<noteq> []" "matchStart (cleanLine l) = Some (d, a, t, s, c)"
      "pushCurrent (step myName i l st) = pushCurrent st @ [newMessage myName i d a t s c]"
      "participantsMap_st (step myName i l st)
         = updateParticipants (newMessage myName i d a t s c) (participantsMap_st st)"
      "sendersSet (step myName i l st) = setAdd (trim s) (sendersSet st)"
  | (continue) m where "cleanLine l \<noteq> []" "matchStart (cleanLine l) = None"
      "pushCurrent st = messages_st st @ [m]"
      "pushCurrent (step myName i l st)
         = messages_st st @ [m\<lparr> content := content m @ 10 # cleanLine l \<rparr>]"
      "participantsMap_st (step myName i l st) = participantsMap_st st"
      "sendersSet (step myName i l st) = sendersSet st"
proof (cases rule: step_cases [of l myName i st])
  case blank
  then show ?thesis using same by simp
next
  case (start d a t s c)
  have "pushCurrent (step myName i l st) = pushCurrent st @ [newMessage myName i d a t s c]"
    by (simp only: start(3) pushCurrent_start)
  moreover have "participantsMap_st (step myName i l st)
      = updateParticipants (newMessage myName i d a t s c) (participantsMap_st st)"
    by (simp only: start(3) pstate.simps)
  moreover have "sendersSet (step myName i l st) = setAdd (trim s) (sendersSet st)"
    by (simp only: start(3) pstate.simps)
  ultimately show ?thesis using start(1,2) by (rule_tac that(2))
next
  case (continue m)
  have "pushCurrent st = messages_st st @ [m]"
    using continue(3) by (rule pushCurrent_Some)
  moreover have "pushCurrent (step myName i l st)
      = messages_st st @ [m\<lparr> content := content m @ 10 # cleanLine l \<rparr>]"
    by (simp only: continue(4) pushCurrent_continue)
  moreover have "participantsMap_st (step myName i l st) = participantsMap_st st"
    "sendersSet (step myName i l st) = sendersSet st"
    by (simp_all add: continue(4))
  ultimately show ?thesis using continue(1,2) by (rule_tac that(3))
next
  case drop
  then show ?thesis using same by simp
qed

text \<open>
  Every message of the result is the message that a start line opened, with lines appended
  to its content.
\<close>

lemma loop_origin:
  assumes "list_all (\<lambda>m. \<exists>i line d a t s c ext. matchStart line = Some (d, a, t, s, c)
              \<and> m = (newMessage myName i d a t s c)\<lparr> content := c @ ext \<rparr>) (pushCurrent st)"
  shows "list_all (\<lambda>m. \<exists>i line d a t s c ext. matchStart line = Some (d, a, t, s, c)
              \<and> m = (newMessage myName i d a t s c)\<lparr> content := c @ ext \<rparr>)
           (pushCurrent (loop myName j ls st))"
proof (rule loop_invariant
    [where P = "\<lambda>st. list_all (\<lambda>m. \<exists>i line d a t s c ext. matchStart line = Some (d, a, t, s, c)
              \<and> m = (newMessage myName i d a t s c)\<lparr> content := c @ ext \<rparr>) (pushCurrent st)"])
  show "list_all (\<lambda>m. \<exists>i line d a t s c ext. matchStart line = Some (d, a, t, s, c)
              \<and> m = (newMessage myName i d a t s c)\<lparr> content := c @ ext \<rparr>) (pushCurrent st)"
    by (rule assms)
next
  fix i l st
  let ?P = "\<lambda>m. \<exists>i line d a t s c ext. matchStart line = Some (d, a, t, s, c)
              \<and> m = (newMessage myName i d a t s c)\<lparr> content := c @ ext \<rparr>"
  assume inv: "list_all ?P (pushCurrent st)"
  show "list_all ?P (pushCurrent (step myName i l st))"
  proof (cases rule: pushCurrent_step [of myName i l st])
    case same
    show ?thesis unfolding same(1) by (rule inv)
  next
    case (start d a t s c)
    have "newMessage myName i d a t s c = (newMessage myName i d a t s c)\<lparr> content := c @ [] \<rparr>"
      by (simp add: newMessage_def Let_def)
    with start(2) have "?P (newMessage myName i d a t s c)" by blast
    with inv show ?thesis unfolding start(3)
      by (simp only: list_all_append list.pred_inject simp_thms)
  next
    case (continue m)
    from inv have xs: "list_all ?P (messages_st st)" and m: "?P m"
      unfolding continue(3) by (simp_all only: list_all_append list.pred_inject simp_thms)
    from m obtain i' line d a t s c ext where o: "matchStart line = Some (d, a, t, s, c)"
      "m = (newMessage myName i' d a t s c)\<lparr> content := c @ ext \<rparr>"
      by blast
    have "m\<lparr> content := content m @ 10 # cleanLine l \<rparr>
        = (newMessage myName i' d a t s c)\<lparr> content := c @ (ext @ 10 # cleanLine l) \<rparr>"
      unfolding o(2) by simp
    with o(1) have "?P (m\<lparr> content := content m @ 10 # cleanLine l \<rparr>)" by blast
    with xs show ?thesis unfolding continue(4)
      by (simp only: list_all_append list.pred_inject simp_thms)
  qed
qed

lemma parse_origin:
  "list_all (\<lambda>m. \<exists>i line d a t s c ext. matchStart line = Some (d, a, t, s, c)
              \<and> m = (newMessage myName i d a t s c)\<lparr> content := c @ ext \<rparr>)
     (messages (parseChatFile text z myName))"
proof -
  have "list_all (\<lambda>m. \<exists>i line d a t s c ext. matchStart line = Some (d, a, t, s, c)
              \<and> m = (newMessage myName i d a t s c)\<lparr> content := c @ ext \<rparr>) (pushCurrent initialState)"
    by (simp only: initialState_def pushCurrent_def pstate.simps option.case list.pred_inject)
  from loop_origin [OF this, of 0 "split_str 10 text"] show ?thesis
    by (simp only: parseChatFile_def Let_def ChatData.simps)
qed

text \<open>A text that is one start line gives the one message that the line opens.\<close>

lemma parse_single_line:
  assumes "split_str 10 l = [l]" and "cleanLine l = l" and "l \<noteq> []"
    and "matchStart l = Some (d, a, t, s, c)"
  shows "messages (parseChatFile l z myName) = [newMessage myName 0 d a t s c]"
  using assms by (simp add: parseChatFile_def Let_def initialState_def step_def pushCurrent_def)

section \<open>Self identity\<close>

lemma loop_isMe:
  assumes "list_all (\<lambda>m. isMe m = isMeOf myName (sender m)) (pushCurrent st)"
  shows "list_all (\<lambda>m. isMe m = isMeOf myName (sender m)) (pushCurrent (loop myName i ls st))"
proof (rule loop_invariant
    [where P = "\<lambda>st. list_all (\<lambda>m. isMe m = isMeOf myName (sender m)) (pushCurrent st)"])
  show "list_all (\<lambda>m. isMe m = isMeOf myName (sender m)) (pushCurrent st)" by (rule assms)
next
  fix i l st
  assume inv: "list_all (\<lambda>m. isMe m = isMeOf myName (sender m)) (pushCurrent st)"
  show "list_all (\<lambda>m. isMe m = isMeOf myName (sender m)) (pushCurrent (step myName i l st))"
  proof (cases rule: pushCurrent_step [of myName i l st])
    case same
    with inv show ?thesis by simp
  next
    case (start d a t s c)
    show ?thesis unfolding start(3) using inv by simp
  next
    case (continue m)
    show ?thesis unfolding continue(4) using inv unfolding continue(3) by simp
  qed
qed

lemma parse_isMe:
  "list_all (\<lambda>m. isMe m = isMeOf myName (sender m)) (messages (parseChatFile text z myName))"
proof -
  have "list_all (\<lambda>m. isMe m = isMeOf myName (sender m)) (pushCurrent initialState)"
    by (simp add: initialState_def pushCurrent_def)
  from loop_isMe [OF this] show ?thesis
    by (simp add: parseChatFile_def Let_def)
qed

section \<open>Message boundaries\<close>

lemma nonBlank_Cons:
  "nonBlank (l # ls) = (if cleanLine l = [] then nonBlank ls else cleanLine l # nonBlank ls)"
  by (simp add: nonBlank_def)

lemma continuation_simps:
  "continuation [] = []"
  "isStartLine x \<Longrightarrow> continuation (x # xs) = []"
  "\<not> isStartLine x \<Longrightarrow> continuation (x # xs) = 10 # x @ continuation xs"
  by (simp_all add: continuation_def)

lemma contentsFrom_start:
  "isStartLine x \<Longrightarrow> contentsFrom None (x # xs) = contentsFrom (Some (startContent x)) xs"
  by simp

lemma contentsFrom_drop:
  "\<not> isStartLine x \<Longrightarrow> contentsFrom None (x # xs) = contentsFrom None xs"
  by simp

lemma contentsFrom_close:
  "isStartLine x \<Longrightarrow> contentsFrom (Some c) (x # xs) = c # contentsFrom (Some (startContent x)) xs"
  by (simp add: continuation_simps)

lemma contentsFrom_continue:
  "\<not> isStartLine x \<Longrightarrow> contentsFrom (Some c) (x # xs) = contentsFrom (Some (c @ 10 # x)) xs"
  by (simp add: continuation_simps)

lemma contentsFrom_Nil: "contentsFrom None [] = []" "contentsFrom (Some c) [] = [c]"
  by (simp_all add: continuation_simps)

lemma loop_contents:
  "map content (pushCurrent (loop myName i ls st))
     = map content (messages_st st) @ contentsFrom (map_option content (currentMessage st)) (nonBlank ls)"
proof (induction ls arbitrary: i st)
  case Nil
  show ?case
    by (cases "currentMessage st") (simp_all add: pushCurrent_def nonBlank_def contentsFrom_Nil del: contentsFrom.simps)
next
  case (Cons l ls)
  have ih: "map content (pushCurrent (loop myName (Suc i) ls (step myName i l st)))
     = map content (messages_st (step myName i l st))
       @ contentsFrom (map_option content (currentMessage (step myName i l st))) (nonBlank ls)"
    by (rule Cons.IH)
  show ?case
  proof (cases rule: step_cases [of l myName i st])
    case blank
    then show ?thesis using ih by (simp add: nonBlank_Cons del: contentsFrom.simps)
  next
    case (start d a t s c)
    then have sl: "isStartLine (cleanLine l)" and sc: "startContent (cleanLine l) = c"
      by (simp_all add: isStartLine_matchStart startContent_matchStart)
    have "map content (messages_st (step myName i l st)) = map content (pushCurrent st)"
      "map_option content (currentMessage (step myName i l st)) = Some c"
      by (simp_all add: start(3))
    with ih have "map content (pushCurrent (loop myName (Suc i) ls (step myName i l st)))
        = map content (pushCurrent st) @ contentsFrom (Some c) (nonBlank ls)"
      by simp
    moreover have "map content (pushCurrent st) @ contentsFrom (Some c) (nonBlank ls)
        = map content (messages_st st)
          @ contentsFrom (map_option content (currentMessage st)) (cleanLine l # nonBlank ls)"
      using sl sc
      by (cases "currentMessage st")
        (simp_all add: pushCurrent_def contentsFrom_start contentsFrom_close del: contentsFrom.simps)
    ultimately show ?thesis using start(1) by (simp add: nonBlank_Cons del: contentsFrom.simps)
  next
    case (continue m)
    then have sl: "\<not> isStartLine (cleanLine l)"
      by (simp add: isStartLine_matchStart)
    have "map content (messages_st (step myName i l st)) = map content (messages_st st)"
      "map_option content (currentMessage (step myName i l st)) = Some (content m @ 10 # cleanLine l)"
      by (simp_all add: continue(4))
    with ih show ?thesis
      using sl continue(1,3) by (simp add: nonBlank_Cons contentsFrom_continue del: contentsFrom.simps)
  next
    case drop
    then have sl: "\<not> isStartLine (cleanLine l)"
      by (simp add: isStartLine_matchStart)
    with ih drop show ?thesis
      by (simp add: nonBlank_Cons contentsFrom_drop del: contentsFrom.simps)
  qed
qed

lemma filter_dropWhile_not: "filter P (dropWhile (\<lambda>x. \<not> P x) xs) = filter P xs"
  by (induction xs) auto

lemma length_foldedContents: "length (foldedContents ls) = length (filter isStartLine ls)"
  by (induction ls rule: foldedContents.induct) (simp_all add: filter_dropWhile_not)

lemma parse_contents:
  "map content (messages (parseChatFile text z myName)) = foldedContents (nonBlankLines text)"
  using loop_contents [of myName 0 "split_str 10 text" initialState]
  by (simp add: parseChatFile_def Let_def nonBlankLines_def initialState_def)

section \<open>Participants\<close>

lemma updateParticipants_skip:
  "\<not> qualifies m \<Longrightarrow> updateParticipants m pm = pm"
  by (auto simp: updateParticipants_def qualifies_def)

lemma updateParticipants_new:
  assumes "qualifies m" and "sender m \<notin> fst ` set pm"
  shows "updateParticipants m pm =
     pm @ [(sender m, \<lparr> name = sender m, lastMessage = content m, lastMessageDate = timestamp m,
                         avatarColor = getRandomColor (sender m) \<rparr>)]"
proof -
  from assms(2) have "map_of pm (sender m) = None"
    by (simp add: map_of_eq_None_iff)
  with assms(1) show ?thesis
    by (simp add: updateParticipants_def qualifies_def)
qed

lemma updateParticipants_existing:
  assumes "qualifies m" and "sender m \<in> fst ` set pm"
  shows "updateParticipants m pm =
     map (\<lambda>(k, p). if k = sender m
                     then (k, p\<lparr> lastMessage := content m, lastMessageDate := timestamp m \<rparr>)
                     else (k, p)) pm"
proof -
  from assms(2) have "map_of pm (sender m) \<noteq> None"
    by (simp add: map_of_eq_None_iff)
  with assms(1) show ?thesis
    by (simp add: updateParticipants_def qualifies_def)
qed

lemma map_fst_updateParticipants_existing:
  "map fst (map (\<lambda>(k, p). if k = x then (k, f p) else (k, p)) pm) = map fst pm"
  by (induction pm) auto

lemma qualifyingFrom_snoc:
  "qualifyingFrom k (ms @ [m]) =
     (if sender m = k \<and> qualifies m then qualifyingFrom k ms @ [m] else qualifyingFrom k ms)"
  by (simp add: qualifyingFrom_def)

lemma entryOk_snoc_other:
  "\<not> (sender m = k \<and> qualifies m) \<Longrightarrow> entryOk (ms @ [m]) (k, p) = entryOk ms (k, p)"
  by (auto simp: entryOk_def qualifyingFrom_snoc)

lemma firstLine_no_newline: "10 \<notin> set s \<Longrightarrow> firstLine s = s"
  by (auto simp: firstLine_def)

lemma firstLine_append: "firstLine (s @ 10 # ext) = firstLine s"
  by (induction s) (simp_all add: firstLine_def)

lemma entryOk_snoc_same:
  assumes "sender m = k" and "qualifies m" and "name p = k" and "avatarColor p = getRandomColor k"
    and "10 \<notin> set (content m)"
  shows "entryOk (ms @ [m]) (k, p\<lparr> lastMessage := content m, lastMessageDate := timestamp m \<rparr>)"
  using assms by (simp add: entryOk_def qualifyingFrom_snoc firstLine_no_newline)

lemma entryOk_extend:
  assumes "entryOk (xs @ [m]) (k, p)"
  shows "entryOk (xs @ [m\<lparr> content := content m @ 10 # ext \<rparr>]) (k, p)"
proof (cases "sender m = k \<and> qualifies m")
  case True
  then have q: "sender (m\<lparr> content := content m @ 10 # ext \<rparr>) = k
      \<and> qualifies (m\<lparr> content := content m @ 10 # ext \<rparr>)"
    by (simp add: qualifies_def)
  from assms True have "lastMessage p = firstLine (content m)"
    by (simp add: entryOk_def qualifyingFrom_snoc)
  then have "lastMessage p = firstLine (content m @ 10 # ext)"
    by (simp only: firstLine_append)
  with assms True q show ?thesis
    by (simp add: entryOk_def qualifyingFrom_snoc)
next
  case False
  then have q: "\<not> (sender (m\<lparr> content := content m @ 10 # ext \<rparr>) = k
      \<and> qualifies (m\<lparr> content := content m @ 10 # ext \<rparr>))"
    by (simp add: qualifies_def)
  from assms show ?thesis
    by (simp only: entryOk_snoc_other [OF False] entryOk_snoc_other [OF q])
qed

lemma entryOk_snoc_absent:
  assumes "sender m \<notin> fst ` set pm" and "e \<in> set pm"
  shows "entryOk (ms @ [m]) e = entryOk ms e"
proof -
  obtain k p where kp: "e = (k, p)" by (cases e)
  with assms have "k \<noteq> sender m" by force
  then show ?thesis unfolding kp by (intro entryOk_snoc_other) simp
qed

lemma participantsInv_start:
  assumes "participantsInv ms pm" and nl: "10 \<notin> set (content m)"
  shows "participantsInv (ms @ [m]) (updateParticipants m pm)"
proof (cases "qualifies m")
  case False
  then have "list_all (entryOk (ms @ [m])) pm = list_all (entryOk ms) pm"
    by (intro list.pred_cong) (auto simp: entryOk_snoc_other)
  with assms False show ?thesis
    by (simp add: participantsInv_def updateParticipants_skip)
next
  case q: True
  show ?thesis
  proof (cases "sender m \<in> fst ` set pm")
    case False
    have old: "list_all (entryOk (ms @ [m])) pm"
    proof -
      have "list_all (entryOk (ms @ [m])) pm = list_all (entryOk ms) pm"
        using False by (intro list.pred_cong) (simp_all add: entryOk_snoc_absent)
      with assms show ?thesis by (simp add: participantsInv_def)
    qed
    have new: "entryOk (ms @ [m])
        (sender m, \<lparr> name = sender m, lastMessage = content m, lastMessageDate = timestamp m,
                      avatarColor = getRandomColor (sender m) \<rparr>)"
      using q nl by (simp add: entryOk_def qualifyingFrom_snoc firstLine_no_newline)
    have "list_all (\<lambda>x. qualifies x \<longrightarrow> sender x \<in> fst ` set pm) ms"
      using assms by (simp add: participantsInv_def)
    then have cover: "list_all (\<lambda>x. qualifies x \<longrightarrow> sender x \<in> insert (sender m) (fst ` set pm)) ms"
      by (rule list.pred_mono_strong) auto
    show ?thesis
      using assms False old new cover
      by (simp add: participantsInv_def updateParticipants_new [OF q False])
  next
    case True
    let ?f = "\<lambda>(k, p). if k = sender m
                     then (k, p\<lparr> lastMessage := content m, lastMessageDate := timestamp m \<rparr>)
                     else (k, p)"
    have up: "updateParticipants m pm = map ?f pm"
      by (rule updateParticipants_existing [OF q True])
    have keys: "map fst (map ?f pm) = map fst pm"
      by (rule map_fst_updateParticipants_existing)
    have "list_all (entryOk ms) pm"
      using assms by (simp add: participantsInv_def)
    then have "list_all (\<lambda>e. entryOk (ms @ [m]) (?f e)) pm"
    proof (rule list.pred_mono_strong)
      fix e assume e: "entryOk ms e"
      obtain k p where kp: "e = (k, p)" by (cases e)
      show "entryOk (ms @ [m]) (?f e)"
      proof (cases "k = sender m")
        case True
        from e kp have "name p = k" "avatarColor p = getRandomColor k"
          by (simp_all add: entryOk_def)
        with True q nl show ?thesis
          using entryOk_snoc_same [of m k p ms] by (simp add: kp)
      next
        case False
        then show ?thesis
          using e by (simp add: kp entryOk_snoc_other)
      qed
    qed
    then have entries: "list_all (entryOk (ms @ [m])) (map ?f pm)"
      by (simp add: list_all_iff)
    have "fst ` set (map ?f pm) = fst ` set pm"
      using keys by (metis set_map)
    with assms True have cover: "list_all (\<lambda>x. qualifies x \<longrightarrow> sender x \<in> fst ` set (map ?f pm)) (ms @ [m])"
      by (simp add: participantsInv_def)
    have "distinct (map fst pm)"
      using assms by (simp add: participantsInv_def)
    then have "distinct (map fst (map ?f pm))"
      by (simp only: keys)
    then show ?thesis
      unfolding up participantsInv_def using entries cover by (intro conjI)
  qed
qed

lemma participantsInv_continue:
  assumes "participantsInv (xs @ [m]) pm"
  shows "participantsInv (xs @ [m\<lparr> content := content m @ 10 # ext \<rparr>]) pm"
proof -
  have "list_all (entryOk (xs @ [m])) pm"
    using assms by (simp add: participantsInv_def)
  then have "list_all (entryOk (xs @ [m\<lparr> content := content m @ 10 # ext \<rparr>])) pm"
    by (rule list.pred_mono_strong) (auto intro: entryOk_extend)
  moreover have "qualifies (m\<lparr> content := content m @ 10 # ext \<rparr>) = qualifies m"
    by (simp add: qualifies_def)
  ultimately show ?thesis
    using assms by (simp add: participantsInv_def)
qed

lemma loop_participantsInv:
  assumes "participantsInv (pushCurrent st) (participantsMap_st st)"
  shows "participantsInv (pushCurrent (loop myName i ls st)) (participantsMap_st (loop myName i ls st))"
proof (rule loop_invariant
    [where P = "\<lambda>st. participantsInv (pushCurrent st) (participantsMap_st st)"])
  show "participantsInv (pushCurrent st) (participantsMap_st st)" by (rule assms)
next
  fix i l st
  assume inv: "participantsInv (pushCurrent st) (participantsMap_st st)"
  show "participantsInv (pushCurrent (step myName i l st)) (participantsMap_st (step myName i l st))"
  proof (cases rule: pushCurrent_step [of myName i l st])
    case same
    with inv show ?thesis by simp
  next
    case (start d a t s c)
    from matchStart_shapes(5) [OF start(2)] have "10 \<notin> set (content (newMessage myName i d a t s c))"
      by (auto simp: list_all_iff isDot_def)
    with inv show ?thesis unfolding start(3,4) by (rule participantsInv_start)
  next
    case (continue m)
    show ?thesis unfolding continue(4,5) using inv unfolding continue(3)
      by (rule participantsInv_continue)
  qed
qed

section \<open>The final sort\<close>

lemma set_insertSorted: "set (insertSorted a bs) = insert a (set bs)"
  by (induction bs) auto

lemma distinct_insertSorted:
  "distinct (map name (insertSorted a bs)) = distinct (map name (a # bs))"
  by (induction bs) (auto simp: set_insertSorted)

lemma set_sortParticipants: "set (sortParticipants ps) = set ps"
  by (induction ps) (simp_all add: sortParticipants_def set_insertSorted)

lemma distinct_sortParticipants:
  "distinct (map name (sortParticipants ps)) = distinct (map name ps)"
  using set_sortParticipants
  by (induction ps) (simp_all add: sortParticipants_def distinct_insertSorted)

lemma parse_participantsInv:
  "\<exists>pm. participantsInv (messages (parseChatFile text z myName)) pm
     \<and> participants (parseChatFile text z myName) = sortParticipants (map snd pm)"
proof -
  have "participantsInv (pushCurrent initialState) (participantsMap_st initialState)"
    by (simp add: participantsInv_def initialState_def pushCurrent_def)
  from loop_participantsInv [OF this, of myName 0 "split_str 10 text"] show ?thesis
    by (auto simp: parseChatFile_def Let_def)
qed

section \<open>Dates of start lines\<close>

lemma DayFromYear_bounds:
  assumes "99 \<le> y" and "y \<le> 10007"
  shows "- 700000 \<le> DayFromYear y" and "DayFromYear y \<le> 3000000"
proof -
  have a: "- 468 \<le> (y - 1969) div 4" "(y - 1969) div 4 \<le> 2009"
    using assms zdiv_mono1 [of "-1870" "y - 1969" 4] zdiv_mono1 [of "y - 1969" 8038 4] by simp_all
  have b: "- 19 \<le> (y - 1901) div 100" "(y - 1901) div 100 \<le> 81"
    using assms zdiv_mono1 [of "-1802" "y - 1901" 100] zdiv_mono1 [of "y - 1901" 8106 100] by simp_all
  have c: "- 4 \<le> (y - 1601) div 400" "(y - 1601) div 400 \<le> 21"
    using assms zdiv_mono1 [of "-1502" "y - 1601" 400] zdiv_mono1 [of "y - 1601" 8406 400] by simp_all
  show "- 700000 \<le> DayFromYear y" and "DayFromYear y \<le> 3000000"
    using assms a b c by (simp_all add: DayFromYear_def)
qed

lemma daysBeforeMonth_bounds: "0 \<le> daysBeforeMonth leap mn" "daysBeforeMonth leap mn \<le> 335"
  by (simp_all add: daysBeforeMonth_def Let_def)

lemma MakeDay_bounds:
  assumes "100 \<le> y" and "y \<le> 9999" and "- 1 \<le> m" and "m \<le> 98" and "0 \<le> d" and "d \<le> 99"
  shows "- 700001 \<le> MakeDay y m d" and "MakeDay y m d \<le> 3000500"
proof -
  have "- 1 \<le> m div 12" "m div 12 \<le> 8"
    using assms zdiv_mono1 [of "-1" m 12] zdiv_mono1 [of m 98 12] by simp_all
  then have ym: "99 \<le> y + m div 12" "y + m div 12 \<le> 10007"
    using assms by simp_all
  show "- 700001 \<le> MakeDay y m d" and "MakeDay y m d \<le> 3000500"
    using DayFromYear_bounds [OF ym] assms(5,6)
      daysBeforeMonth_bounds [of "InLeapYear (y + m div 12)" "m mod 12"]
    by (simp_all add: MakeDay_def Let_def)
qed

lemma newDate_valid:
  assumes "100 \<le> y" and "y \<le> 9999" and "- 1 \<le> m" and "m \<le> 98" and "0 \<le> d" and "d \<le> 99"
    and "0 \<le> h" and "h \<le> 111" and "0 \<le> mi" and "mi \<le> 99" and "0 \<le> s" and "s \<le> 99"
  shows "newDate (Some y) (Some m) (Some d) (Some h) (Some mi) (Some s)
           = Some (MakeDay y m d * 86400000 + (h * 3600000 + mi * 60000 + s * 1000))"
proof -
  have "\<bar>MakeDay y m d * 86400000 + (h * 3600000 + mi * 60000 + s * 1000)\<bar> \<le> 8640000000000000"
    using MakeDay_bounds [OF assms(1-6)] assms(7-) by simp
  then show ?thesis
    using assms(1) by (simp add: newDate_def TimeClip_def MakeDate_def MakeTime_def)
qed

lemma HourFromTime_fields:
  "HourFromTime (day * 86400000 + (h * 3600000 + mi * 60000 + s * 1000))
     = ((h * 3600 + mi * 60 + s) div 3600) mod 24"
proof -
  define x where "x = day * 24 * 3600 + (h * 3600 + mi * 60 + s)"
  have e: "day * 86400000 + (h * 3600000 + mi * 60000 + s * 1000) = x * 1000"
    by (simp add: x_def)
  have "(x * 1000) div (3600 * 1000) = x div 3600"
    by (rule div_mult_mult2) simp
  then have "(x * 1000) div 3600000 = x div 3600"
    by simp
  also have "\<dots> = day * 24 + (h * 3600 + mi * 60 + s) div 3600"
    by (simp add: x_def)
  finally have "(x * 1000) div 3600000 = day * 24 + (h * 3600 + mi * 60 + s) div 3600" .
  then show ?thesis
    unfolding HourFromTime_def e by simp
qed

lemma HourFromTime_clock:
  fixes h mi s :: int
  assumes "0 \<le> h" and "h < 24" and "0 \<le> mi" and "mi < 60" and "0 \<le> s" and "s < 60"
  shows "((h * 3600 + mi * 60 + s) div 3600) mod 24 = h"
proof -
  have "(h * 3600 + (mi * 60 + s)) div 3600 = h + (mi * 60 + s) div 3600"
    by simp
  moreover have "(mi * 60 + s) div 3600 = 0"
    using assms by (simp add: div_pos_pos_trivial)
  ultimately show ?thesis using assms by (simp add: add.assoc)
qed

lemma convertHours_hour24: "convertHours amPm (Some h) = Some (hour24 amPm h)"
  by (auto simp: convertHours_def hour24_def isPM_def isAM_def str_def)

lemma fullYearOf_windowYear: "fullYearOf (Some y) = Some (windowYear y)"
  by (simp add: fullYearOf_def windowYear_def)

lemma timeFields_hour24:
  assumes "timeShape t hh mm ss"
  shows "timeFields amPm t
           = (Some (hour24 amPm (digitsValue hh)), Some (digitsValue mm), Some (digitsValue ss))"
  by (simp add: timeFields_shape [OF assms] convertHours_hour24)

lemma timestampOf_dots:
  assumes "dateShape d a 46 b 46 y"
  shows "timestampOf d amPm t =
     (case timeFields amPm t of (hours, minutes, seconds) \<Rightarrow>
        newDate (Some (windowYear (digitsValue y))) (Some (digitsValue b - 1)) (Some (digitsValue a))
          hours minutes seconds)"
  by (simp add: timestampOf_def dateFields_dots [OF assms] fullYearOf_windowYear split: prod.splits)

lemma timestampOf_slashes:
  assumes "dateShape d a 47 b 47 y"
  shows "timestampOf d amPm t =
     (case timeFields amPm t of (hours, minutes, seconds) \<Rightarrow>
        newDate (Some (windowYear (digitsValue y))) (Some (digitsValue a - 1)) (Some (digitsValue b))
          hours minutes seconds)"
  by (simp add: timestampOf_def dateFields_slashes [OF assms] fullYearOf_windowYear split: prod.splits)

lemma newDate_Some_fields:
  assumes "newDate y m d (Some h) (Some mi) (Some s) = Some t"
  shows "\<exists>day. t = day * 86400000 + (h * 3600000 + mi * 60000 + s * 1000)"
  using assms
  by (auto simp: newDate_def TimeClip_def MakeDate_def MakeTime_def Let_def
      split: option.splits if_splits)

lemma timestampOf_hour:
  assumes "timeShape t hh mm ss" and "timestampOf d amPm t = Some x"
  shows "HourFromTime x
     = ((hour24 amPm (digitsValue hh) * 3600 + digitsValue mm * 60 + digitsValue ss) div 3600) mod 24"
proof -
  from assms(2) obtain y m dd where
    "newDate y m dd (Some (hour24 amPm (digitsValue hh))) (Some (digitsValue mm)) (Some (digitsValue ss))
       = Some x"
    by (auto simp: timestampOf_def timeFields_hour24 [OF assms(1)] split: prod.splits)
  from newDate_Some_fields [OF this] show ?thesis
    by (auto simp: HourFromTime_fields)
qed

lemma digits2_bounds:
  assumes "list_all isDigit a" and "length a \<le> 2"
  shows "0 \<le> digitsValue a" and "digitsValue a \<le> 99"
proof -
  have "(10::int) ^ length a \<le> 10 ^ 2"
    using assms(2) by (intro power_increasing) simp_all
  with digitsValue_bounds [OF assms(1)] show "0 \<le> digitsValue a" and "digitsValue a \<le> 99"
    by simp_all
qed

lemma digits4_bounds:
  assumes "list_all isDigit a" and "length a \<le> 4"
  shows "0 \<le> digitsValue a" and "digitsValue a \<le> 9999"
proof -
  have "(10::int) ^ length a \<le> 10 ^ 4"
    using assms(2) by (intro power_increasing) simp_all
  with digitsValue_bounds [OF assms(1)] show "0 \<le> digitsValue a" and "digitsValue a \<le> 9999"
    by simp_all
qed

lemma hour24_bounds: "0 \<le> h \<Longrightarrow> h \<le> 99 \<Longrightarrow> 0 \<le> hour24 amPm h \<and> hour24 amPm h \<le> 111"
  by (simp add: hour24_def)

lemma windowYear_bounds: "0 \<le> y \<Longrightarrow> y \<le> 9999 \<Longrightarrow> 100 \<le> windowYear y \<and> windowYear y \<le> 9999"
  by (simp add: windowYear_def)

text \<open>With one separator throughout, the timestamp of a start line is a valid date.\<close>

lemma dateShape_one_separator:
  assumes "dateShape d a s1 b s2 y" and "46 \<notin> set d \<or> 47 \<notin> set d"
  shows "s1 = s2"
  using assms by (auto simp: dateShape_def isDateSep_def)

lemma timestampOf_valid:
  assumes d: "dateShape d a s1 b s2 y" and t: "timeShape t hh mm ss" and s: "s1 = s2"
  shows "\<exists>day. timestampOf d amPm t
     = Some (day * 86400000
         + (hour24 amPm (digitsValue hh) * 3600000 + digitsValue mm * 60000 + digitsValue ss * 1000))"
proof -
  from d have da: "list_all isDigit a" "length a \<le> 2" and db: "list_all isDigit b" "length b \<le> 2"
    and dy: "list_all isDigit y" "length y \<le> 4" and sep: "isDateSep s1"
    by (simp_all add: dateShape_def)
  from t have dh: "list_all isDigit hh" "length hh \<le> 2" and dm: "list_all isDigit mm" "length mm \<le> 2"
    and ds: "list_all isDigit ss" "length ss \<le> 2"
    by (simp_all add: timeShape_def)
  note A = digits2_bounds [OF da] and B = digits2_bounds [OF db] and Y = digits4_bounds [OF dy]
  note H = hour24_bounds [OF digits2_bounds [OF dh], of amPm]
  note M = digits2_bounds [OF dm] and S = digits2_bounds [OF ds]
  note W = windowYear_bounds [OF Y]
  from sep s consider "s1 = 46" "s2 = 46" | "s1 = 47" "s2 = 47"
    by (auto simp: isDateSep_def)
  then show ?thesis
  proof cases
    case 1
    have "newDate (Some (windowYear (digitsValue y))) (Some (digitsValue b - 1)) (Some (digitsValue a))
        (Some (hour24 amPm (digitsValue hh))) (Some (digitsValue mm)) (Some (digitsValue ss))
      = Some (MakeDay (windowYear (digitsValue y)) (digitsValue b - 1) (digitsValue a) * 86400000
         + (hour24 amPm (digitsValue hh) * 3600000 + digitsValue mm * 60000 + digitsValue ss * 1000))"
      using A B W H M S by (intro newDate_valid) simp_all
    then show ?thesis
      using d 1 by (simp add: timestampOf_dots timeFields_hour24 [OF t])
  next
    case 2
    have "newDate (Some (windowYear (digitsValue y))) (Some (digitsValue a - 1)) (Some (digitsValue b))
        (Some (hour24 amPm (digitsValue hh))) (Some (digitsValue mm)) (Some (digitsValue ss))
      = Some (MakeDay (windowYear (digitsValue y)) (digitsValue a - 1) (digitsValue b) * 86400000
         + (hour24 amPm (digitsValue hh) * 3600000 + digitsValue mm * 60000 + digitsValue ss * 1000))"
      using A B W H M S by (intro newDate_valid) simp_all
    then show ?thesis
      using d 2 by (simp add: timestampOf_slashes timeFields_hour24 [OF t])
  qed
qed

text \<open>With two different separators it is the invalid date.\<close>

lemma timestampOf_invalid:
  assumes "dateShape d a s1 b s2 y" and "s1 \<noteq> s2"
  shows "timestampOf d amPm t = None"
proof -
  obtain dd mo yy where df: "dateFields d = (dd, mo, yy)" by (cases "dateFields d") auto
  with dateFields_mixed [OF assms] have "yy = None" by simp
  then show ?thesis
    by (simp add: timestampOf_def df fullYearOf_def newDate_def split: prod.splits)
qed

section \<open>Dates in the time zone of the host\<close>

text \<open>
  The timestamp that a host in the zone \<open>z\<close> stores is the local time value of the parser
  converted to UTC and clipped; in the zone of offset \<open>0\<close> it is the local time value.
\<close>

lemma UTC_fixedZone: "UTC (fixedZone off) t = t - off"
  by (simp add: UTC_def fixedZone_def)

lemma newDate_fixedZone: "newDate y m d h mi s = newDateIn (fixedZone 0) y m d h mi s"
  by (simp add: newDate_def newDateIn_def UTC_fixedZone split: option.splits)

lemma newDateIn_local:
  assumes "newDate y m d h mi s = Some l"
  shows "newDateIn z y m d h mi s = TimeClip (l - offsetOfLocal z l)"
  using assms
  by (auto simp: newDate_def newDateIn_def UTC_def TimeClip_def Let_def
      split: option.splits if_splits)

lemma newDateIn_invalid:
  assumes "newDate y m d h mi s = None" and "y = None"
  shows "newDateIn z y m d h mi s = None"
  using assms by (simp add: newDateIn_def)

lemma timestampOfIn_local:
  assumes "timestampOf d amPm t = Some l"
  shows "timestampOfIn z d amPm t = TimeClip (l - offsetOfLocal z l)"
  using assms
  by (auto simp: timestampOf_def timestampOfIn_def newDateIn_local split: prod.splits)

lemma timestampOfIn_invalid:
  assumes "dateShape d a s1 b s2 y" and "s1 \<noteq> s2"
  shows "timestampOfIn z d amPm t = None"
proof -
  obtain dd mo yy where df: "dateFields d = (dd, mo, yy)" by (cases "dateFields d") auto
  with dateFields_mixed [OF assms] have "yy = None" by simp
  then show ?thesis
    by (simp add: timestampOfIn_def df fullYearOf_def newDateIn_def split: prod.splits)
qed

lemma timestampOfIn_fields:
  assumes "timeShape t hh mm ss"
  shows "timestampOfIn z d amPm t =
     (case dateFields d of (day, month, year) \<Rightarrow>
        newDateIn z (fullYearOf year) (map_option (\<lambda>x. x - 1) month) day
          (Some (hour24 amPm (digitsValue hh))) (Some (digitsValue mm)) (Some (digitsValue ss)))"
  by (simp add: timestampOfIn_def timeFields_hour24 [OF assms] split: prod.splits)

lemma isDigit_not_sep: "isDigit c \<Longrightarrow> c \<noteq> 46 \<and> c \<noteq> 47"
  by (simp add: isDigit_def)

lemma dateShape_two_separators:
  assumes "dateShape d a s1 b s2 y" and "46 \<in> set d" and "47 \<in> set d"
  shows "s1 \<noteq> s2"
proof
  assume e: "s1 = s2"
  from assms(1) have d: "d = a @ [s1] @ b @ [s2] @ y" and da: "list_all isDigit a"
    and db: "list_all isDigit b" and dy: "list_all isDigit y"
    by (simp_all add: dateShape_def)
  have n: "\<And>c. c \<in> set a \<or> c \<in> set b \<or> c \<in> set y \<Longrightarrow> c \<noteq> 46 \<and> c \<noteq> 47"
    using da db dy isDigit_not_sep by (auto simp: list_all_iff)
  from assms(2) d e n have "s1 = 46" by auto
  moreover from assms(3) d e n have "s1 = 47" by auto
  ultimately show False by simp
qed

lemma HourFromTime_less: "HourFromTime t \<noteq> 25"
proof -
  have "HourFromTime t < 24" by (simp add: HourFromTime_def)
  then show ?thesis by simp
qed

lemma getHoursIn_local:
  assumes "offsetOfUTC z t = offsetOfLocal z l" and "t = l - offsetOfLocal z l"
  shows "getHoursIn z (Some t) = Some (HourFromTime l)"
  using assms by (simp add: getHoursIn_def LocalTime_def)

lemma TimeClip_Some: "TimeClip x = Some t \<Longrightarrow> t = x"
  by (simp add: TimeClip_def split: if_splits)

text \<open>In a zone with a fixed offset the offset at an instant is the offset of every local time.\<close>

lemma fixedZone_offsets: "offsetOfUTC (fixedZone off) t = offsetOfLocal (fixedZone off) l"
  by (simp add: fixedZone_def)

section \<open>The attachment patterns\<close>

lemma matches_chars_captures:
  "matches (foldr Seq (map Chr ps) Eps) i caps w caps' \<Longrightarrow> caps' = caps"
  by (induction ps arbitrary: i w) (auto elim!: matches_EpsE matches_SeqE matches_ChrE)

lemma matches_litI: "matches (litI s) i caps w caps' \<Longrightarrow> caps' = caps"
  using matches_chars_captures [of "map (\<lambda>x c. c < 128 \<and> upperASCII c = upperASCII x) s" i caps w caps']
  by (simp add: litI_def seqs_def comp_def)

lemma matches_fileNameRegex:
  "matches fileNameRegex i caps w caps' \<Longrightarrow> caps' 1 = Some w"
  unfolding fileNameRegex_def by (auto elim!: matches_GrpE)

lemma matches_attachmentRegexNew:
  assumes "matches attachmentRegexNew i caps0 w caps"
  shows "caps 1 \<noteq> None"
  using assms
  apply (simp add: attachmentRegexNew_def seqs_def)
  apply (elim matches_SeqE matches_ChrE matches_RepE matches_EpsE)
  apply (auto dest!: matches_litI matches_fileNameRegex)
  done

lemma attachMatchNew_matches:
  "attachMatchNew c \<noteq> None \<longleftrightarrow> exec attachmentRegexNew c \<noteq> None"
proof (cases "exec attachmentRegexNew c")
  case None
  then show ?thesis by (simp add: attachMatchNew_def)
next
  case (Some caps)
  from execFrom_sound [OF Some [unfolded exec_def]]
  obtain pre w post where "c = pre @ w @ post"
    "matches attachmentRegexNew (0 + length pre) Map.empty w caps"
    by blast
  from matches_attachmentRegexNew [OF this(2)] Some show ?thesis
    by (simp add: attachMatchNew_def)
qed

lemma attachmentOf_new:
  "attachMatchNew c \<noteq> None \<Longrightarrow> attachmentOf c = attachMatchNew c"
  by (auto simp: attachmentOf_def)

lemma typeWithAttachment_cases:
  "extensionOf f \<in> set [str ''jpg'', str ''jpeg'', str ''png'', str ''webp'']
     \<Longrightarrow> typeWithAttachment t (Some f) = Image"
  "extensionOf f \<in> set [str ''opus'', str ''mp3'', str ''wav'', str ''aac'', str ''m4a'']
     \<Longrightarrow> typeWithAttachment t (Some f) = Audio"
  "extensionOf f \<in> set [str ''mp4'', str ''mov''] \<Longrightarrow> typeWithAttachment t (Some f) = Video"
  "extensionOf f = str ''pdf'' \<Longrightarrow> typeWithAttachment t (Some f) = t"
proof -
  have e: "extensionOf [] = []"
    by (simp add: extensionOf_def toLowerCase_def)
  have n: "[] \<notin> set [str ''jpg'', str ''jpeg'', str ''png'', str ''webp'']"
    "[] \<notin> set [str ''opus'', str ''mp3'', str ''wav'', str ''aac'', str ''m4a'']"
    "[] \<notin> set [str ''mp4'', str ''mov'']" "[] \<noteq> str ''pdf''"
    by (simp_all add: str_def)
  have d: "set [str ''opus'', str ''mp3'', str ''wav'', str ''aac'', str ''m4a'']
      \<inter> set [str ''jpg'', str ''jpeg'', str ''png'', str ''webp''] = {}"
    "set [str ''mp4'', str ''mov''] \<inter> set [str ''jpg'', str ''jpeg'', str ''png'', str ''webp''] = {}"
    "set [str ''mp4'', str ''mov''] \<inter> set [str ''opus'', str ''mp3'', str ''wav'', str ''aac'', str ''m4a''] = {}"
    "str ''pdf'' \<notin> set [str ''jpg'', str ''jpeg'', str ''png'', str ''webp'']"
    "str ''pdf'' \<notin> set [str ''opus'', str ''mp3'', str ''wav'', str ''aac'', str ''m4a'']"
    "str ''pdf'' \<notin> set [str ''mp4'', str ''mov'']"
    by (simp_all add: str_def)
  show "extensionOf f \<in> set [str ''jpg'', str ''jpeg'', str ''png'', str ''webp'']
     \<Longrightarrow> typeWithAttachment t (Some f) = Image"
    using e n(1) by (cases "f = []") (auto simp: typeWithAttachment_def Let_def)
  show "extensionOf f \<in> set [str ''opus'', str ''mp3'', str ''wav'', str ''aac'', str ''m4a'']
     \<Longrightarrow> typeWithAttachment t (Some f) = Audio"
    using e n(2) d(1) by (cases "f = []") (auto simp: typeWithAttachment_def Let_def)
  show "extensionOf f \<in> set [str ''mp4'', str ''mov''] \<Longrightarrow> typeWithAttachment t (Some f) = Video"
    using e n(3) d(2,3) by (cases "f = []") (auto simp: typeWithAttachment_def Let_def)
  show "extensionOf f = str ''pdf'' \<Longrightarrow> typeWithAttachment t (Some f) = t"
    using d(4-6) by (cases "f = []") (auto simp: typeWithAttachment_def Let_def)
qed

section \<open>Evaluation on the example inputs\<close>

lemmas class_defs = isDigit_def isDateSep_def isWhiteSpace_def isDot_def isFileChar_def upperASCII_def
lemmas regex_defs = exec_def msgStartRegex_def dateRegex_def markerRegex_def timeRegex_def
  attachmentRegexNew_def attachmentRegexOld_def fileNameRegex_def extensionRegex_def
  seqs_def alts_def lit_def litI_def
lemmas number_defs = Number_def digitsValue_def parseInt_def parseIntElement_def element_def
lemmas date_defs = newDate_def TimeClip_def MakeDate_def MakeDay_def MakeTime_def DayFromYear_def
  InLeapYear_def daysBeforeMonth_def dateFields_def timeFields_def timestampOf_def fullYearOf_def
  convertHours_def
lemmas phrase_defs = phraseType_def phraseImage_def phraseAudio_def phraseSecurity_def
  phraseVideoCall_def phraseVoiceCall_def toLowerCase_def lowerCU_def
lemmas attach_defs = attachMatchNew_def attachMatchOld_def attachmentOf_def extensionOf_def
  typeWithAttachment_def typeOf_def

lemma split_scenarioText: "split_str 10 scenarioText = [lineAlice, lineWorld, lineBob]"
  by (simp add: scenarioText_def str_def)

lemma split_unorderedText: "split_str 10 unorderedText = [lineAlice, lineBob, lineAliceEarlier]"
  by (simp add: unorderedText_def str_def)

lemma cleanLine_examples:
  "cleanLine lineAlice = lineAlice" "cleanLine lineWorld = lineWorld" "cleanLine lineBob = lineBob"
  "cleanLine lineAliceEarlier = lineAliceEarlier"
  by (simp_all add: cleanLine_def trim_def str_def class_defs)

lemma matchStart_lineAlice:
  "matchStart lineAlice
     = Some (str ''28.11.2024'', None, str ''14:05:00'', str ''Alice'', str ''Hello'')"
  by (simp add: matchStart_def regex_defs str_def class_defs)

lemma matchStart_lineWorld: "matchStart lineWorld = None"
  by (simp add: matchStart_def regex_defs str_def class_defs)

lemma matchStart_lineBob:
  "matchStart lineBob = Some (str ''28.11.2024'', None, str ''14:06:00'', str ''Bob'', str ''Hi'')"
  by (simp add: matchStart_def regex_defs str_def class_defs)

lemma matchStart_lineAliceEarlier:
  "matchStart lineAliceEarlier
     = Some (str ''28.11.2024'', None, str ''13:00:00'', str ''Alice'', str ''Bye'')"
  by (simp add: matchStart_def regex_defs str_def class_defs)

lemma timestampOf_examples:
  "timestampOf (str ''28.11.2024'') None (str ''14:05:00'') = Some 1732802700000"
  "timestampOf (str ''28.11.2024'') None (str ''14:06:00'') = Some 1732802760000"
  "timestampOf (str ''28.11.2024'') None (str ''13:00:00'') = Some 1732798800000"
  by (simp_all add: date_defs number_defs str_def class_defs Let_def)

lemma typeOf_examples:
  "typeOf (str ''Hello'') = Text" "typeOf (str ''Hi'') = Text" "typeOf (str ''Bye'') = Text"
  by (simp_all add: attach_defs phrase_defs regex_defs str_def class_defs Let_def)

lemma trim_examples: "trim (str ''Alice'') = str ''Alice''" "trim (str ''Bob'') = str ''Bob''"
  by (simp_all add: trim_def str_def class_defs)

lemma distinct_examples:
  "str ''Alice'' \<noteq> str ''Bob''" "str ''Bob'' \<noteq> str ''Alice''"
  "lineAlice \<noteq> []" "lineWorld \<noteq> []" "lineBob \<noteq> []" "lineAliceEarlier \<noteq> []"
  by (simp_all add: str_def)

lemmas example_facts = cleanLine_examples matchStart_lineAlice matchStart_lineWorld matchStart_lineBob
  matchStart_lineAliceEarlier timestampOf_examples typeOf_examples trim_examples distinct_examples

lemmas parse_defs = parseChatFile_def Let_def initialState_def step_def isMeOf_def
  updateParticipants_def setAdd_def pushCurrent_def sortParticipants_def comparePositive_def

lemma parse_unorderedText:
  "map (\<lambda>m. (sender m, content m, timestamp m)) (messages (parseChatFile unorderedText z None))
     = [(str ''Alice'', str ''Hello'', Some 1732802700000), (str ''Bob'', str ''Hi'', Some 1732802760000),
        (str ''Alice'', str ''Bye'', Some 1732798800000)]"
  "map (\<lambda>p. (name p, lastMessage p, lastMessageDate p)) (participants (parseChatFile unorderedText z None))
     = [(str ''Bob'', str ''Hi'', Some 1732802760000), (str ''Alice'', str ''Bye'', Some 1732798800000)]"
  by (simp_all add: parse_defs split_unorderedText example_facts)


lemma lineNoSender_facts:
  "split_str 10 lineNoSender = [lineNoSender]"
  "cleanLine lineNoSender = lineNoSender"
  "lineNoSender \<noteq> []"
  "matchStart lineNoSender = Some (str ''28.11.2024'', None, str ''14:05:00'', [], str ''hi'')"
  "trim [] = []"
  "typeOf (str ''hi'') = Text"
     apply (simp add: str_def)
    apply (simp add: cleanLine_def trim_def str_def class_defs)
    apply (simp add: str_def)
    apply (simp add: matchStart_def regex_defs str_def class_defs)
   apply (simp add: trim_def)
  apply (simp add: attach_defs phrase_defs regex_defs str_def class_defs Let_def)
  done

lemma nonBlankLines_scenarioText: "nonBlankLines scenarioText = [lineAlice, lineWorld, lineBob]"
  by (simp add: nonBlankLines_def nonBlank_def split_scenarioText cleanLine_examples distinct_examples)

lemma isStartLine_examples:
  "isStartLine lineAlice" "\<not> isStartLine lineWorld" "isStartLine lineBob"
  "startContent lineAlice = str ''Hello''" "startContent lineBob = str ''Hi''"
  by (simp_all add: isStartLine_matchStart matchStart_lineAlice matchStart_lineWorld
      matchStart_lineBob startContent_matchStart [OF matchStart_lineAlice]
      startContent_matchStart [OF matchStart_lineBob])

lemma parse_unorderedText_Alice:
  "map (\<lambda>m. (sender m, isMe m)) (messages (parseChatFile unorderedText z (Some (str ''Alice''))))
     = [(str ''Alice'', True), (str ''Bob'', False), (str ''Alice'', True)]"
proof -
  have "str ''Alice'' \<noteq> []" by (simp add: str_def)
  then show ?thesis
    by (simp add: parse_defs split_unorderedText example_facts)
qed

lemma parse_lineNoSender:
  "map (\<lambda>m. (sender m, isMe m)) (messages (parseChatFile lineNoSender z (Some [])))
     = [([], False)]"
  by (simp add: parse_defs lineNoSender_facts)

lemma participants_names:
  assumes "participantsInv ms pm"
  shows "map name (map snd pm) = map fst pm"
proof -
  from assms have "list_all (entryOk ms) pm" by (simp add: participantsInv_def)
  then show ?thesis
    by (induction pm) (auto simp: entryOk_def)
qed

lemma participants_keys:
  assumes "participantsInv ms pm"
  shows "fst ` set pm = sender ` {m \<in> set ms. qualifies m}"
proof
  show "fst ` set pm \<subseteq> sender ` {m \<in> set ms. qualifies m}"
  proof
    fix k assume "k \<in> fst ` set pm"
    then obtain p where kp: "(k, p) \<in> set pm" by auto
    from assms have "list_all (entryOk ms) pm" by (simp add: participantsInv_def)
    with kp have "entryOk ms (k, p)" by (simp add: list_all_iff)
    then have "qualifyingFrom k ms \<noteq> []" by (simp add: entryOk_def)
    then obtain m where "m \<in> set (qualifyingFrom k ms)" by (cases "qualifyingFrom k ms") auto
    then have "m \<in> set ms" "sender m = k" "qualifies m" by (simp_all add: qualifyingFrom_def)
    then show "k \<in> sender ` {m \<in> set ms. qualifies m}" by auto
  qed
next
  show "sender ` {m \<in> set ms. qualifies m} \<subseteq> fst ` set pm"
  proof
    fix k assume "k \<in> sender ` {m \<in> set ms. qualifies m}"
    then obtain m where m: "m \<in> set ms" "qualifies m" "sender m = k" by auto
    from assms have "list_all (\<lambda>m. qualifies m \<longrightarrow> sender m \<in> fst ` set pm) ms"
      by (simp add: participantsInv_def)
    with m(1) have "qualifies m \<longrightarrow> sender m \<in> fst ` set pm" by (simp add: list_all_iff)
    with m show "k \<in> fst ` set pm" by simp
  qed
qed

lemma participants_entries:
  assumes "participantsInv ms pm"
  shows "list_all (\<lambda>p. entryOk ms (name p, p)) (map snd pm)"
proof -
  from assms have "list_all (entryOk ms) pm" by (simp add: participantsInv_def)
  then have "list_all (\<lambda>e. entryOk ms (name (snd e), snd e)) pm"
    by (rule list.pred_mono_strong) (auto simp: entryOk_def)
  then show ?thesis by (simp add: list_all_iff)
qed

lemma parse_participants:
  "distinct (map name (participants (parseChatFile text z myName)))"
  "set (map name (participants (parseChatFile text z myName)))
     = sender ` {m \<in> set (messages (parseChatFile text z myName)). qualifies m}"
  "list_all (\<lambda>p. entryOk (messages (parseChatFile text z myName)) (name p, p))
     (participants (parseChatFile text z myName))"
proof -
  from parse_participantsInv [of "text" z myName] obtain pm where
    inv: "participantsInv (messages (parseChatFile text z myName)) pm"
    and ps: "participants (parseChatFile text z myName) = sortParticipants (map snd pm)"
    by blast
  from inv have d: "distinct (map fst pm)" by (simp add: participantsInv_def)
  show "distinct (map name (participants (parseChatFile text z myName)))"
    unfolding ps distinct_sortParticipants participants_names [OF inv] by (rule d)
  have "set (map name (sortParticipants (map snd pm))) = name ` set (map snd pm)"
    by (simp only: set_map set_sortParticipants)
  also have "\<dots> = set (map name (map snd pm))" by (simp only: set_map)
  also have "\<dots> = fst ` set pm" by (simp only: participants_names [OF inv] set_map)
  finally show "set (map name (participants (parseChatFile text z myName)))
     = sender ` {m \<in> set (messages (parseChatFile text z myName)). qualifies m}"
    unfolding ps participants_keys [OF inv] .
  from participants_entries [OF inv]
  show "list_all (\<lambda>p. entryOk (messages (parseChatFile text z myName)) (name p, p))
     (participants (parseChatFile text z myName))"
    unfolding ps by (simp add: list_all_iff set_sortParticipants)
qed

lemma updateParticipants_cases:
  "updateParticipants m pm =
     (if \<not> isMe m \<and> type_msg m \<noteq> System then
        (if sender m \<in> fst ` set pm
         then map (\<lambda>(k, p). if k = sender m
                               then (k, p\<lparr> lastMessage := content m, lastMessageDate := timestamp m \<rparr>)
                               else (k, p)) pm
         else pm @ [(sender m,
                     \<lparr> name = sender m, lastMessage = content m, lastMessageDate = timestamp m,
                       avatarColor = getRandomColor (sender m) \<rparr>)])
      else pm)"
proof (cases "qualifies m")
  case False
  then have c: "\<not> (\<not> isMe m \<and> type_msg m \<noteq> System)"
    by (simp add: qualifies_def)
  show ?thesis
    by (simp only: c if_False simp_thms updateParticipants_skip [OF False])
next
  case True
  then have c: "\<not> isMe m \<and> type_msg m \<noteq> System"
    by (simp add: qualifies_def)
  show ?thesis
  proof (cases "sender m \<in> fst ` set pm")
    case False
    show ?thesis
      by (simp only: c False if_True if_False simp_thms updateParticipants_new [OF True False])
  next
    case e: True
    show ?thesis
      by (simp only: c e if_True simp_thms updateParticipants_existing [OF True e])
  qed
qed

lemma matchStart_lineUS:
  "matchStart lineUS = Some (str ''6/27/24'', Some (str ''PM''), str ''01:05:00'', str ''Bob'', str ''ok'')"
  by (simp add: matchStart_def regex_defs str_def class_defs)

lemma matchStart_lineHour25:
  "matchStart lineHour25 = Some (str ''28.11.2024'', None, str ''25:05:00'', str ''A'', str ''x'')"
  by (simp add: matchStart_def regex_defs str_def class_defs)

lemma matchStart_lineVideo:
  "matchStart lineVideo = Some (str ''28.11.2024'', None, str ''14:05:00'', str ''Bob'', contentVideo)"
  by (simp add: matchStart_def regex_defs lineVideo_def contentVideo_def str_def class_defs)

lemma matchStart_lineBoth:
  "matchStart lineBoth = Some (str ''28.11.2024'', None, str ''14:05:00'', str ''Bob'', contentBoth)"
  by (simp add: matchStart_def regex_defs str_def class_defs)


lemma contentVideo_facts:
  "phraseType contentVideo = Image"
  "attachmentOf contentVideo = Some (str ''a.mp4'')"
  "extensionOf (str ''a.mp4'') = str ''mp4''"
    apply (simp add: phrase_defs contentVideo_def str_def Let_def)
   apply (simp add: attach_defs regex_defs contentVideo_def str_def class_defs)
  apply (simp add: extensionOf_def toLowerCase_def lowerCU_def str_def)
  done

lemma contentBoth_facts:
  "attachMatchNew contentBoth = Some (str ''a.jpg'')"
  "attachMatchOld contentBoth = Some (str '' b.png'')"
   apply (simp add: attach_defs regex_defs str_def class_defs)
  apply (simp add: attach_defs regex_defs str_def class_defs)
  done


lemma timestamp_facts:
  "timestampOf (str ''6/27/24'') (Some (str ''PM'')) (str ''01:05:00'') = Some 1719493500000"
  "timestampOf (str ''28.11.2024'') None (str ''25:05:00'') = Some 1732842300000"
  "HourFromTime 1719493500000 = 13"
  "HourFromTime 1732842300000 = 1"
  by (simp_all add: date_defs number_defs str_def class_defs Let_def HourFromTime_def)

lemma dateShape_examples:
  "dateShape (str ''28.11.2024'') (str ''28'') 46 (str ''11'') 46 (str ''2024'')"
  "dateShape (str ''6/27/24'') (str ''6'') 47 (str ''27'') 47 (str ''24'')"
  "digitsValue (str ''28'') = 28" "digitsValue (str ''11'') = 11" "digitsValue (str ''2024'') = 2024"
  "digitsValue (str ''6'') = 6" "digitsValue (str ''27'') = 27" "digitsValue (str ''24'') = 24"
  by (simp_all add: dateShape_def digitsValue_def str_def class_defs)

lemma timeFields_examples:
  "timeFields None (str ''14:05:00'') = (Some 14, Some 5, Some 0)"
  "timeFields (Some (str ''PM'')) (str ''01:05:00'') = (Some 13, Some 5, Some 0)"
  by (simp_all add: date_defs number_defs str_def class_defs Let_def)

lemma timeShape_example:
  "timeShape (str ''01:05:00'') (str ''01'') (str ''05'') (str ''00'')"
  "digitsValue (str ''01'') = 1" "digitsValue (str ''05'') = 5" "digitsValue (str ''00'') = 0"
  "46 \<notin> set (str ''6/27/24'')"
  by (simp_all add: timeShape_def digitsValue_def str_def class_defs)

lemma hour24_examples:
  "hour24 (Some (str ''PM'')) 1 = 13" "hour24 (Some (str ''PM'')) 12 = 12"
  "hour24 (Some (str ''AM'')) 12 = 0" "hour24 (Some [214, 83]) 12 = 12"
  "hour24 (Some [214, 214]) 12 = 0" "hour24 (Some [214, 83]) 1 = 13"
  by (simp_all add: hour24_def isPM_def isAM_def str_def)

lemma matchStart_lineMixed:
  "matchStart lineMixed = Some (str ''28.11/2024'', None, str ''14:05:00'', str ''A'', str ''x'')"
  by (simp add: matchStart_def regex_defs str_def class_defs)

lemma matchStart_lineSkipped:
  "matchStart lineSkipped = Some (str ''29.03.2015'', None, str ''03:30:00'', str ''A'', str ''x'')"
  by (simp add: matchStart_def regex_defs str_def class_defs)

lemma more_line_facts:
  "split_str 10 lineMixed = [lineMixed]" "cleanLine lineMixed = lineMixed" "lineMixed \<noteq> []"
  "split_str 10 lineSkipped = [lineSkipped]" "cleanLine lineSkipped = lineSkipped" "lineSkipped \<noteq> []"
  by (simp_all add: cleanLine_def trim_def str_def class_defs)

lemma parse_lineMixed:
  "messages (parseChatFile lineMixed z myName)
     = [newMessage myName 0 (str ''28.11/2024'') None (str ''14:05:00'') (str ''A'') (str ''x'')]"
  by (rule parse_single_line [OF more_line_facts(1-3) matchStart_lineMixed])

lemma parse_lineSkipped:
  "messages (parseChatFile lineSkipped z myName)
     = [newMessage myName 0 (str ''29.03.2015'') None (str ''03:30:00'') (str ''A'') (str ''x'')]"
  by (rule parse_single_line [OF more_line_facts(4-6) matchStart_lineSkipped])

lemma more_shapes:
  "timeShape (str ''14:05:00'') (str ''14'') (str ''05'') (str ''00'')"
  "46 \<in> set (str ''28.11/2024'')" "47 \<in> set (str ''28.11/2024'')"
  by (simp_all add: timeShape_def str_def class_defs)

text \<open>
  Timestamps in a zone three hours ahead of UTC.  In the zone \<open>istanbul2015\<close> the local time
  03:30 of 29 March 2015, the time of the start line \<open>lineSkipped\<close>, is skipped: the stored
  instant is 01:30 UTC, whose local hour is \<open>4\<close>, not the hour \<open>3\<close> of the line.
\<close>

lemma zone_examples:
  "timestampOfIn (fixedZone 10800000) (str ''6/27/24'') (Some (str ''PM'')) (str ''01:05:00'')
     = Some 1719482700000"
  "timestampOfIn (fixedZone 10800000) (str ''28.11.2024'') None (str ''25:05:00'') = Some 1732831500000"
  "getHoursIn (fixedZone 10800000) (Some 1719482700000) = Some 13"
  "getHoursIn (fixedZone 10800000) (Some 1732831500000) = Some 1"
  "offsetOfUTC (fixedZone 10800000) 1719482700000 = offsetOfLocal (fixedZone 10800000) 1719493500000"
  by (simp_all add: timestampOfIn_local [OF timestamp_facts(1)] timestampOfIn_local [OF timestamp_facts(2)]
      TimeClip_def fixedZone_def getHoursIn_def LocalTime_def HourFromTime_def)

lemma skipped_local_time_example:
  "timestampOf (str ''29.03.2015'') None (str ''03:30:00'') = Some 1427599800000"
  "timeFields None (str ''03:30:00'') = (Some 3, Some 30, Some 0)"
  "timestampOfIn istanbul2015 (str ''29.03.2015'') None (str ''03:30:00'') = Some 1427592600000"
  "getHoursIn istanbul2015 (Some 1427592600000) = Some 4"
  "offsetOfLocal istanbul2015 1427599800000 = 7200000"
  "offsetOfUTC istanbul2015 1427592600000 = 10800000"
proof -
  show a: "timestampOf (str ''29.03.2015'') None (str ''03:30:00'') = Some 1427599800000"
    by (simp add: date_defs number_defs str_def class_defs Let_def)
  show "timeFields None (str ''03:30:00'') = (Some 3, Some 30, Some 0)"
    by (simp add: date_defs number_defs str_def class_defs Let_def)
  show "timestampOfIn istanbul2015 (str ''29.03.2015'') None (str ''03:30:00'') = Some 1427592600000"
    by (simp add: timestampOfIn_local [OF a] TimeClip_def istanbul2015_def)
  show "getHoursIn istanbul2015 (Some 1427592600000) = Some 4"
    by (simp add: getHoursIn_def LocalTime_def HourFromTime_def istanbul2015_def)
  show "offsetOfLocal istanbul2015 1427599800000 = 7200000"
    "offsetOfUTC istanbul2015 1427592600000 = 10800000"
    by (simp_all add: istanbul2015_def)
qed

lemma single_line_facts:
  "split_str 10 lineAlice = [lineAlice]"
  "split_str 10 lineUS = [lineUS]" "cleanLine lineUS = lineUS" "lineUS \<noteq> []"
  "split_str 10 lineHour25 = [lineHour25]" "cleanLine lineHour25 = lineHour25" "lineHour25 \<noteq> []"
  "split_str 10 lineBoth = [lineBoth]" "cleanLine lineBoth = lineBoth" "lineBoth \<noteq> []"
  "split_str 10 linePdf = [linePdf]" "cleanLine linePdf = linePdf" "linePdf \<noteq> []"
  by (simp_all add: cleanLine_def trim_def str_def class_defs)

lemma lineVideo_facts:
  "split_str 10 lineVideo = [lineVideo]" "cleanLine lineVideo = lineVideo" "lineVideo \<noteq> []"
  by (simp_all add: lineVideo_def contentVideo_def cleanLine_def trim_def str_def class_defs)

lemma parse_lineAlice:
  "messages (parseChatFile lineAlice z myName)
     = [newMessage myName 0 (str ''28.11.2024'') None (str ''14:05:00'') (str ''Alice'') (str ''Hello'')]"
  by (rule parse_single_line [OF single_line_facts(1) cleanLine_examples(1) distinct_examples(3)
        matchStart_lineAlice])

lemma parse_lineUS:
  "messages (parseChatFile lineUS z myName)
     = [newMessage myName 0 (str ''6/27/24'') (Some (str ''PM'')) (str ''01:05:00'') (str ''Bob'') (str ''ok'')]"
  by (rule parse_single_line [OF single_line_facts(2-4) matchStart_lineUS])

lemma parse_lineHour25:
  "messages (parseChatFile lineHour25 z myName)
     = [newMessage myName 0 (str ''28.11.2024'') None (str ''25:05:00'') (str ''A'') (str ''x'')]"
  by (rule parse_single_line [OF single_line_facts(5-7) matchStart_lineHour25])

lemma parse_lineBoth:
  "messages (parseChatFile lineBoth z myName)
     = [newMessage myName 0 (str ''28.11.2024'') None (str ''14:05:00'') (str ''Bob'') contentBoth]"
  by (rule parse_single_line [OF single_line_facts(8-10) matchStart_lineBoth])


lemma parse_lineVideo:
  "messages (parseChatFile lineVideo z myName)
     = [newMessage myName 0 (str ''28.11.2024'') None (str ''14:05:00'') (str ''Bob'') contentVideo]"
  by (rule parse_single_line [OF lineVideo_facts matchStart_lineVideo])

section \<open>The claims\<close>

text \<open>
  Claim C1.  The end-to-end scenario of the specification: the text \<open>scenarioText\<close>, parsed with
  no archive and no self identity, gives exactly two messages, the first of sender \<open>Alice\<close> with
  the content \<open>Hello\<close>, newline, \<open>world\<close>, the second of sender \<open>Bob\<close> with the content \<open>Hi\<close>; all
  senders are \<open>Alice\<close>, \<open>Bob\<close>; the participants are \<open>Bob\<close> and \<open>Alice\<close> in this order, which is
  the descending order of their last message dates.
\<close>

theorem end_to_end_scenario:
  "map (\<lambda>m. (sender m, content m)) (messages (parseChatFile scenarioText None None))
     = [(str ''Alice'', str ''Hello'' @ [10] @ str ''world''), (str ''Bob'', str ''Hi'')]
   \<and> allSenders (parseChatFile scenarioText None None) = [str ''Alice'', str ''Bob'']
   \<and> map name (participants (parseChatFile scenarioText None None)) = [str ''Bob'', str ''Alice'']
   \<and> map lastMessageDate (participants (parseChatFile scenarioText None None))
       = [Some 1732802760000, Some 1732802700000]
   \<and> zipFile (parseChatFile scenarioText None None) = None"
  by (simp add: parse_defs split_scenarioText example_facts)

theorem end_to_end_scenario_witness:
  "length (messages (parseChatFile scenarioText (None :: unit option) None)) = 2"
proof -
  have "length (map (\<lambda>m. (sender m, content m)) (messages (parseChatFile scenarioText (None :: unit option) None))) = 2"
    by (simp only: end_to_end_scenario [where 'a = unit, THEN conjunct1]) simp
  then show ?thesis by simp
qed

text \<open>
  Claim C2.  For every text, the parse returns as many messages as there are non-blank lines
  (bidi marks removed, trimmed) that match the start pattern, and the contents of the
  messages are those that the specification describes: the content part of each start line,
  followed by the non-blank lines up to the next start line, in the order of the input, each
  after a newline; the lines before the first start line are dropped.
\<close>

theorem message_boundaries:
  "length (messages (parseChatFile text z myName)) = length (filter isStartLine (nonBlankLines text))
   \<and> map content (messages (parseChatFile text z myName)) = foldedContents (nonBlankLines text)"
proof -
  have "length (map content (messages (parseChatFile text z myName)))
      = length (foldedContents (nonBlankLines text))"
    by (simp only: parse_contents)
  then have "length (messages (parseChatFile text z myName))
      = length (filter isStartLine (nonBlankLines text))"
    by (simp only: length_map length_foldedContents)
  then show ?thesis
    using parse_contents by blast
qed

theorem message_boundaries_witness:
  "length (filter isStartLine (nonBlankLines scenarioText)) = 2
   \<and> foldedContents (nonBlankLines scenarioText) = [str ''Hello'' @ [10] @ str ''world'', str ''Hi'']
   \<and> length (messages (parseChatFile scenarioText (None :: unit option) None)) = 2
   \<and> map content (messages (parseChatFile scenarioText (None :: unit option) None))
       = [str ''Hello'' @ [10] @ str ''world'', str ''Hi'']"
proof -
  have a: "length (filter isStartLine (nonBlankLines scenarioText)) = 2"
    by (simp add: nonBlankLines_scenarioText isStartLine_examples)
  have b: "foldedContents (nonBlankLines scenarioText) = [str ''Hello'' @ [10] @ str ''world'', str ''Hi'']"
    by (simp add: nonBlankLines_scenarioText isStartLine_examples continuation_def)
  from message_boundaries [of scenarioText "None :: unit option" None] a b show ?thesis
    by simp
qed

text \<open>
  Claim C3.  In every start line the date token is \<open>a s1 b s2 y\<close> with digits \<open>a\<close>, \<open>b\<close>, \<open>y\<close> and
  separators \<open>s1\<close>, \<open>s2\<close>.  When both separators are \<open>.\<close> the token is read day-month-year:
  the day is \<open>a\<close>, the month \<open>b\<close>, the year \<open>y\<close>.  When both are \<open>/\<close> it is read
  month-day-year: the month is \<open>a\<close>, the day \<open>b\<close>.  The timestamp is made from the year, with
  \<open>2000\<close> added when it is below \<open>100\<close> and as it is otherwise, the month minus one, the day,
  and the time fields.
\<close>

theorem date_token_field_order:
  assumes "matchStart line = Some (dateStr, amPm, timeStr, senderNameRaw, contentStart)"
  shows "(\<exists>a s1 b s2 y. dateShape dateStr a s1 b s2 y)
    \<and> (\<forall>a b y. dateShape dateStr a 46 b 46 y \<longrightarrow>
          dateFields dateStr = (Some (digitsValue a), Some (digitsValue b), Some (digitsValue y))
          \<and> timestamp (newMessage myName i dateStr amPm timeStr senderNameRaw contentStart)
              = newDate (Some (if digitsValue y < 100 then 2000 + digitsValue y else digitsValue y))
                  (Some (digitsValue b - 1)) (Some (digitsValue a))
                  (fst (timeFields amPm timeStr)) (fst (snd (timeFields amPm timeStr)))
                  (snd (snd (timeFields amPm timeStr))))
    \<and> (\<forall>a b y. dateShape dateStr a 47 b 47 y \<longrightarrow>
          dateFields dateStr = (Some (digitsValue b), Some (digitsValue a), Some (digitsValue y))
          \<and> timestamp (newMessage myName i dateStr amPm timeStr senderNameRaw contentStart)
              = newDate (Some (if digitsValue y < 100 then 2000 + digitsValue y else digitsValue y))
                  (Some (digitsValue a - 1)) (Some (digitsValue b))
                  (fst (timeFields amPm timeStr)) (fst (snd (timeFields amPm timeStr)))
                  (snd (snd (timeFields amPm timeStr))))"
proof (intro conjI allI impI)
  show "\<exists>a s1 b s2 y. dateShape dateStr a s1 b s2 y"
    by (rule matchStart_shapes(1) [OF assms])
next
  fix a b y assume d: "dateShape dateStr a 46 b 46 y"
  show "dateFields dateStr = (Some (digitsValue a), Some (digitsValue b), Some (digitsValue y))"
    by (rule dateFields_dots [OF d])
  show "timestamp (newMessage myName i dateStr amPm timeStr senderNameRaw contentStart)
      = newDate (Some (if digitsValue y < 100 then 2000 + digitsValue y else digitsValue y))
          (Some (digitsValue b - 1)) (Some (digitsValue a))
          (fst (timeFields amPm timeStr)) (fst (snd (timeFields amPm timeStr)))
          (snd (snd (timeFields amPm timeStr)))"
    by (simp add: timestampOf_dots [OF d] windowYear_def split: prod.splits)
next
  fix a b y assume d: "dateShape dateStr a 47 b 47 y"
  show "dateFields dateStr = (Some (digitsValue b), Some (digitsValue a), Some (digitsValue y))"
    by (rule dateFields_slashes [OF d])
  show "timestamp (newMessage myName i dateStr amPm timeStr senderNameRaw contentStart)
      = newDate (Some (if digitsValue y < 100 then 2000 + digitsValue y else digitsValue y))
          (Some (digitsValue a - 1)) (Some (digitsValue b))
          (fst (timeFields amPm timeStr)) (fst (snd (timeFields amPm timeStr)))
          (snd (snd (timeFields amPm timeStr)))"
    by (simp add: timestampOf_slashes [OF d] windowYear_def split: prod.splits)
qed

theorem date_token_field_order_witness:
  "matchStart lineAlice = Some (str ''28.11.2024'', None, str ''14:05:00'', str ''Alice'', str ''Hello'')
   \<and> dateFields (str ''28.11.2024'') = (Some 28, Some 11, Some 2024)
   \<and> map timestamp (messages (parseChatFile lineAlice (None :: unit option) None))
       = [newDate (Some 2024) (Some 10) (Some 28) (Some 14) (Some 5) (Some 0)]
   \<and> matchStart lineUS = Some (str ''6/27/24'', Some (str ''PM''), str ''01:05:00'', str ''Bob'', str ''ok'')
   \<and> dateFields (str ''6/27/24'') = (Some 27, Some 6, Some 24)
   \<and> map timestamp (messages (parseChatFile lineUS (None :: unit option) None))
       = [newDate (Some 2024) (Some 5) (Some 27) (Some 13) (Some 5) (Some 0)]"
proof -
  note a = date_token_field_order [OF matchStart_lineAlice, of None 0, THEN conjunct2, THEN conjunct1,
      rule_format, OF dateShape_examples(1)]
  note b = date_token_field_order [OF matchStart_lineUS, of None 0, THEN conjunct2, THEN conjunct2,
      rule_format, OF dateShape_examples(2)]
  show ?thesis
    using a b matchStart_lineAlice matchStart_lineUS
    by (simp add: parse_lineAlice parse_lineUS dateShape_examples(3-) timeFields_examples)
qed

text \<open>
  Claim C4, as stated, fails.  The line \<open>lineHour25\<close> is a start line with the time
  \<open>25:05:00\<close> and no marker, so the claim gives the hour \<open>25\<close>.  The local time value of the
  timestamp is 01:05 of the next day; in a zone three hours ahead of UTC the timestamp stores
  the hour \<open>1\<close>, and in no zone does it store the hour \<open>25\<close>.
\<close>

theorem hour_rollover_counterexample:
  "matchStart lineHour25 = Some (str ''28.11.2024'', None, str ''25:05:00'', str ''A'', str ''x'')
   \<and> timeFields None (str ''25:05:00'') = (Some 25, Some 5, Some 0)
   \<and> hour24 None 25 = 25
   \<and> map timestamp (messages (parseChatFile lineHour25 (None :: unit option) None)) = [Some 1732842300000]
   \<and> timestampOfIn (fixedZone 10800000) (str ''28.11.2024'') None (str ''25:05:00'') = Some 1732831500000
   \<and> getHoursIn (fixedZone 10800000) (Some 1732831500000) = Some 1
   \<and> (\<forall>z. getHoursIn z (timestampOfIn z (str ''28.11.2024'') None (str ''25:05:00'')) \<noteq> Some 25)"
proof -
  have "timeFields None (str ''25:05:00'') = (Some 25, Some 5, Some 0)"
    by (simp add: date_defs number_defs str_def class_defs Let_def)
  moreover have "hour24 None 25 = 25"
    by (simp add: hour24_def isPM_def isAM_def)
  moreover have "getHoursIn z d \<noteq> Some 25" for z d
    using HourFromTime_less by (cases d) (simp_all add: getHoursIn_def)
  ultimately show ?thesis
    using matchStart_lineHour25 by (simp add: parse_lineHour25 timestamp_facts zone_examples)
qed

text \<open>
  Claim C4, amended.  In every start line the time token is \<open>h:m:s\<close> with digits, and the hour
  given to the constructor of the timestamp is obtained from the hour \<open>h\<close> as the claim says
  (\<open>hour24\<close>: with a PM marker and an hour other than \<open>12\<close>, add \<open>12\<close>; with an AM marker and the
  hour \<open>12\<close>, \<open>0\<close>; the hour itself otherwise), in every host zone \<open>z\<close>.  When the date token
  holds both \<open>.\<close> and \<open>/\<close>, the timestamp is the invalid date.  Otherwise the timestamp is a
  local time value \<open>l\<close> converted to UTC by the zone of the host and clipped.  When that is a
  valid date \<open>t\<close> and the zone has at \<open>t\<close> the offset with which it read \<open>l\<close> (so it is in every
  zone with a fixed offset, see \<open>fixedZone_offsets\<close>; not so for a local time that a transition
  skips, see \<open>skipped_local_time_example\<close>), the hour that the timestamp stores is the hour of the
  time of day that the converted hour, the minutes and the seconds add up to, modulo \<open>24\<close>;
  it is the converted hour when that is below \<open>24\<close> and the minutes and the seconds are below
  \<open>60\<close>.
\<close>

theorem hour_conversion:
  assumes "matchStart line = Some (dateStr, amPm, timeStr, senderNameRaw, contentStart)"
  shows "(\<exists>h m s. timeShape timeStr h m s)
    \<and> (\<forall>h m s. timeShape timeStr h m s \<longrightarrow>
          timeFields amPm timeStr
            = (Some (hour24 amPm (digitsValue h)), Some (digitsValue m), Some (digitsValue s))
          \<and> (\<forall>z. timestampOfIn z dateStr amPm timeStr
                 = (case dateFields dateStr of (day, month, year) \<Rightarrow>
                      newDateIn z (fullYearOf year) (map_option (\<lambda>x. x - 1) month) day
                        (Some (hour24 amPm (digitsValue h))) (Some (digitsValue m)) (Some (digitsValue s))))
          \<and> (46 \<in> set dateStr \<and> 47 \<in> set dateStr \<longrightarrow>
                timestamp (newMessage myName i dateStr amPm timeStr senderNameRaw contentStart) = None
                \<and> (\<forall>z. timestampOfIn z dateStr amPm timeStr = None))
          \<and> (46 \<notin> set dateStr \<or> 47 \<notin> set dateStr \<longrightarrow>
                (\<exists>l. timestamp (newMessage myName i dateStr amPm timeStr senderNameRaw contentStart) = Some l
                   \<and> (\<forall>z. timestampOfIn z dateStr amPm timeStr = TimeClip (l - offsetOfLocal z l))
                   \<and> (\<forall>z t. timestampOfIn z dateStr amPm timeStr = Some t
                              \<and> offsetOfUTC z t = offsetOfLocal z l \<longrightarrow>
                          getHoursIn z (Some t)
                            = Some (((hour24 amPm (digitsValue h) * 3600 + digitsValue m * 60
                                        + digitsValue s) div 3600) mod 24)
                          \<and> (hour24 amPm (digitsValue h) < 24 \<and> digitsValue m < 60 \<and> digitsValue s < 60
                                \<longrightarrow> getHoursIn z (Some t) = Some (hour24 amPm (digitsValue h)))))))"
proof (intro conjI allI impI)
  show "\<exists>h m s. timeShape timeStr h m s"
    by (rule matchStart_shapes(2) [OF assms])
next
  fix h m s assume t: "timeShape timeStr h m s"
  show "timeFields amPm timeStr
      = (Some (hour24 amPm (digitsValue h)), Some (digitsValue m), Some (digitsValue s))"
    by (rule timeFields_hour24 [OF t])
next
  fix h m s z assume t: "timeShape timeStr h m s"
  show "timestampOfIn z dateStr amPm timeStr
      = (case dateFields dateStr of (day, month, year) \<Rightarrow>
           newDateIn z (fullYearOf year) (map_option (\<lambda>x. x - 1) month) day
             (Some (hour24 amPm (digitsValue h))) (Some (digitsValue m)) (Some (digitsValue s)))"
    by (rule timestampOfIn_fields [OF t])
next
  fix h m s assume c: "46 \<in> set dateStr \<and> 47 \<in> set dateStr"
  from matchStart_shapes(1) [OF assms] obtain a s1 b s2 y where d: "dateShape dateStr a s1 b s2 y"
    by blast
  from c have n: "s1 \<noteq> s2" by (intro dateShape_two_separators [OF d]) simp_all
  show "timestamp (newMessage myName i dateStr amPm timeStr senderNameRaw contentStart) = None"
    by (simp add: timestampOf_invalid [OF d n])
  fix z show "timestampOfIn z dateStr amPm timeStr = None"
    by (rule timestampOfIn_invalid [OF d n])
next
  fix h m s assume t: "timeShape timeStr h m s" and c: "46 \<notin> set dateStr \<or> 47 \<notin> set dateStr"
  from matchStart_shapes(1) [OF assms] obtain a s1 b s2 y where d: "dateShape dateStr a s1 b s2 y"
    by blast
  have "s1 = s2" by (rule dateShape_one_separator [OF d c])
  from timestampOf_valid [OF d t this, of amPm] obtain day where
    ts: "timestampOf dateStr amPm timeStr
       = Some (day * 86400000
           + (hour24 amPm (digitsValue h) * 3600000 + digitsValue m * 60000 + digitsValue s * 1000))"
    by blast
  define l where "l = day * 86400000
           + (hour24 amPm (digitsValue h) * 3600000 + digitsValue m * 60000 + digitsValue s * 1000)"
  have hl: "HourFromTime l
      = ((hour24 amPm (digitsValue h) * 3600 + digitsValue m * 60 + digitsValue s) div 3600) mod 24"
    unfolding l_def by (rule HourFromTime_fields)
  from t have dg: "list_all isDigit h" "length h \<le> 2" "list_all isDigit m" "length m \<le> 2"
    "list_all isDigit s" "length s \<le> 2"
    by (simp_all add: timeShape_def)
  have h0: "0 \<le> hour24 amPm (digitsValue h)"
    using hour24_bounds [OF digits2_bounds [OF dg(1,2)], of amPm] by simp
  have clock: "((hour24 amPm (digitsValue h) * 3600 + digitsValue m * 60 + digitsValue s) div 3600) mod 24
      = hour24 amPm (digitsValue h)"
    if "hour24 amPm (digitsValue h) < 24 \<and> digitsValue m < 60 \<and> digitsValue s < 60"
    using that h0 digits2_bounds(1) [OF dg(3,4)] digits2_bounds(1) [OF dg(5,6)]
    by (intro HourFromTime_clock) simp_all
  have stored: "timestampOfIn z dateStr amPm timeStr = TimeClip (l - offsetOfLocal z l)" for z
    using ts unfolding l_def [symmetric] by (rule timestampOfIn_local)
  have hours: "getHoursIn z (Some x) = Some (HourFromTime l)"
    if "timestampOfIn z dateStr amPm timeStr = Some x \<and> offsetOfUTC z x = offsetOfLocal z l" for z x
  proof -
    from that stored [of z] have "x = l - offsetOfLocal z l"
      by (simp add: TimeClip_Some)
    with that show ?thesis by (intro getHoursIn_local) simp_all
  qed
  show "\<exists>l. timestamp (newMessage myName i dateStr amPm timeStr senderNameRaw contentStart) = Some l
      \<and> (\<forall>z. timestampOfIn z dateStr amPm timeStr = TimeClip (l - offsetOfLocal z l))
      \<and> (\<forall>z t. timestampOfIn z dateStr amPm timeStr = Some t
                 \<and> offsetOfUTC z t = offsetOfLocal z l \<longrightarrow>
             getHoursIn z (Some t)
               = Some (((hour24 amPm (digitsValue h) * 3600 + digitsValue m * 60
                           + digitsValue s) div 3600) mod 24)
             \<and> (hour24 amPm (digitsValue h) < 24 \<and> digitsValue m < 60 \<and> digitsValue s < 60
                   \<longrightarrow> getHoursIn z (Some t) = Some (hour24 amPm (digitsValue h))))"
  proof (intro exI [of _ l] conjI allI impI)
    show "timestamp (newMessage myName i dateStr amPm timeStr senderNameRaw contentStart) = Some l"
      using ts by (simp add: l_def)
    show "timestampOfIn z dateStr amPm timeStr = TimeClip (l - offsetOfLocal z l)" for z
      by (rule stored)
    show "getHoursIn z (Some x)
        = Some (((hour24 amPm (digitsValue h) * 3600 + digitsValue m * 60 + digitsValue s) div 3600)
                  mod 24)"
      if "timestampOfIn z dateStr amPm timeStr = Some x \<and> offsetOfUTC z x = offsetOfLocal z l" for z x
      using hours [OF that] hl by simp
    show "getHoursIn z (Some x) = Some (hour24 amPm (digitsValue h))"
      if "timestampOfIn z dateStr amPm timeStr = Some x \<and> offsetOfUTC z x = offsetOfLocal z l"
        and "hour24 amPm (digitsValue h) < 24 \<and> digitsValue m < 60 \<and> digitsValue s < 60" for z x
      using hours [OF that(1)] hl clock [OF that(2)] by simp
  qed
qed

theorem hour_conversion_witness:
  "matchStart lineUS = Some (str ''6/27/24'', Some (str ''PM''), str ''01:05:00'', str ''Bob'', str ''ok'')
   \<and> timeShape (str ''01:05:00'') (str ''01'') (str ''05'') (str ''00'')
   \<and> timeFields (Some (str ''PM'')) (str ''01:05:00'') = (Some 13, Some 5, Some 0)
   \<and> map timestamp (messages (parseChatFile lineUS (None :: unit option) None)) = [Some 1719493500000]
   \<and> timestampOfIn (fixedZone 10800000) (str ''6/27/24'') (Some (str ''PM'')) (str ''01:05:00'')
       = Some 1719482700000
   \<and> getHoursIn (fixedZone 10800000) (Some 1719482700000) = Some 13
   \<and> hour24 (Some (str ''PM'')) 12 = 12 \<and> hour24 (Some (str ''AM'')) 12 = 0
   \<and> hour24 (Some [214, 83]) 12 = 12 \<and> hour24 (Some [214, 214]) 12 = 0
   \<and> matchStart lineMixed = Some (str ''28.11/2024'', None, str ''14:05:00'', str ''A'', str ''x'')
   \<and> map timestamp (messages (parseChatFile lineMixed (None :: unit option) None)) = [None]
   \<and> timestampOfIn (fixedZone 10800000) (str ''28.11/2024'') None (str ''14:05:00'') = None"
proof -
  note w = hour_conversion [OF matchStart_lineUS, of None 0, THEN conjunct2, rule_format,
      OF timeShape_example(1)]
  from w [THEN conjunct2, THEN conjunct2, THEN conjunct2, rule_format] timeShape_example(5)
  obtain l where
    l: "timestamp (newMessage None 0 (str ''6/27/24'') (Some (str ''PM'')) (str ''01:05:00'') (str ''Bob'') (str ''ok'')) = Some l"
    and g: "\<And>z t. timestampOfIn z (str ''6/27/24'') (Some (str ''PM'')) (str ''01:05:00'') = Some t
              \<and> offsetOfUTC z t = offsetOfLocal z l \<Longrightarrow>
           hour24 (Some (str ''PM'')) (digitsValue (str ''01'')) < 24 \<and> digitsValue (str ''05'') < 60
              \<and> digitsValue (str ''00'') < 60 \<Longrightarrow>
           getHoursIn z (Some t) = Some (hour24 (Some (str ''PM'')) (digitsValue (str ''01'')))"
    by blast
  from l have le: "l = 1719493500000"
    by (simp add: timestamp_facts)
  have a: "getHoursIn (fixedZone 10800000) (Some 1719482700000)
      = Some (hour24 (Some (str ''PM'')) (digitsValue (str ''01'')))"
    by (rule g) (simp_all add: zone_examples le timeShape_example hour24_examples)
  note x = hour_conversion [OF matchStart_lineMixed, of None 0, THEN conjunct2, rule_format,
      OF more_shapes(1), THEN conjunct2, THEN conjunct2, THEN conjunct1, rule_format]
  have b: "timestamp (newMessage None 0 (str ''28.11/2024'') None (str ''14:05:00'') (str ''A'') (str ''x'')) = None
      \<and> (\<forall>z. timestampOfIn z (str ''28.11/2024'') None (str ''14:05:00'') = None)"
    by (rule x) (simp add: more_shapes)
  show ?thesis
    using a b matchStart_lineUS matchStart_lineMixed timeShape_example(1) timeFields_examples(2)
    by (simp add: parse_lineUS parse_lineMixed timeShape_example(2-) hour24_examples timestamp_facts
        zone_examples)
qed

text \<open>
  Claim C5.  When the content of a start line yields an attachment file name, the type of the
  message follows from the extension of the name, whatever the system phrases gave:
  \<open>jpg\<close>, \<open>jpeg\<close>, \<open>png\<close>, \<open>webp\<close> give an image, \<open>opus\<close>, \<open>mp3\<close>, \<open>wav\<close>, \<open>aac\<close>, \<open>m4a\<close> an audio,
  \<open>mp4\<close>, \<open>mov\<close> a video.
\<close>

theorem attachment_extension_decides_type:
  assumes "matchStart line = Some (dateStr, amPm, timeStr, senderNameRaw, contentStart)"
    and "attachmentOf contentStart = Some f"
  shows "attachmentFileName (newMessage myName i dateStr amPm timeStr senderNameRaw contentStart) = Some f
    \<and> type_msg (newMessage myName i dateStr amPm timeStr senderNameRaw contentStart)
        = typeWithAttachment (phraseType contentStart) (Some f)
    \<and> (\<forall>t. (extensionOf f \<in> set [str ''jpg'', str ''jpeg'', str ''png'', str ''webp'']
               \<longrightarrow> typeWithAttachment t (Some f) = Image)
           \<and> (extensionOf f \<in> set [str ''opus'', str ''mp3'', str ''wav'', str ''aac'', str ''m4a'']
               \<longrightarrow> typeWithAttachment t (Some f) = Audio)
           \<and> (extensionOf f \<in> set [str ''mp4'', str ''mov'']
               \<longrightarrow> typeWithAttachment t (Some f) = Video))"
  using assms(2) typeWithAttachment_cases(1-3) [of f]
  by (simp add: typeOf_def)

theorem attachment_extension_decides_type_witness:
  "matchStart lineVideo = Some (str ''28.11.2024'', None, str ''14:05:00'', str ''Bob'', contentVideo)
   \<and> phraseType contentVideo = Image
   \<and> attachmentOf contentVideo = Some (str ''a.mp4'')
   \<and> extensionOf (str ''a.mp4'') = str ''mp4''
   \<and> map (\<lambda>m. (attachmentFileName m, type_msg m)) (messages (parseChatFile lineVideo (None :: unit option) None))
       = [(Some (str ''a.mp4''), Video)]"
proof -
  note w = attachment_extension_decides_type [OF matchStart_lineVideo contentVideo_facts(2), of None 0]
  have "typeWithAttachment (phraseType contentVideo) (Some (str ''a.mp4'')) = Video"
    by (rule w [THEN conjunct2, THEN conjunct2, rule_format, THEN conjunct2, THEN conjunct2, rule_format])
      (simp add: contentVideo_facts(3))
  with w show ?thesis
    using matchStart_lineVideo contentVideo_facts by (simp add: parse_lineVideo)
qed

text \<open>
  Claim C6.  When the content of a start line matches both the angle-bracket pattern and the
  other attachment pattern, the attachment file name of the message is the name that the
  angle-bracket pattern captured.
\<close>

theorem angle_bracket_attachment_first:
  assumes "matchStart line = Some (dateStr, amPm, timeStr, senderNameRaw, contentStart)"
    and "exec attachmentRegexNew contentStart \<noteq> None"
    and "exec attachmentRegexOld contentStart \<noteq> None"
  shows "attachMatchNew contentStart \<noteq> None
    \<and> attachmentFileName (newMessage myName i dateStr amPm timeStr senderNameRaw contentStart)
        = attachMatchNew contentStart"
proof -
  from assms(2) have "attachMatchNew contentStart \<noteq> None"
    using attachMatchNew_matches by blast
  then show ?thesis
    by (simp add: attachmentOf_new)
qed

theorem angle_bracket_attachment_first_witness:
  "matchStart lineBoth = Some (str ''28.11.2024'', None, str ''14:05:00'', str ''Bob'', contentBoth)
   \<and> exec attachmentRegexNew contentBoth \<noteq> None
   \<and> exec attachmentRegexOld contentBoth \<noteq> None
   \<and> attachMatchNew contentBoth = Some (str ''a.jpg'')
   \<and> attachMatchOld contentBoth = Some (str '' b.png'')
   \<and> map attachmentFileName (messages (parseChatFile lineBoth (None :: unit option) None))
       = [Some (str ''a.jpg'')]"
proof -
  have n: "exec attachmentRegexNew contentBoth \<noteq> None"
    using contentBoth_facts(1) by (auto simp: attachMatchNew_def split: option.splits)
  have o: "exec attachmentRegexOld contentBoth \<noteq> None"
    using contentBoth_facts(2) by (auto simp: attachMatchOld_def split: option.splits)
  from angle_bracket_attachment_first [OF matchStart_lineBoth n o, of None 0] show ?thesis
    using matchStart_lineBoth n o contentBoth_facts by (simp add: parse_lineBoth)
qed

text \<open>
  Claim C7.  A message changes the participant map exactly when it is not from the user and
  is not a system message: then the entry of its sender is created, with the colour of the
  name, when the sender has none, and otherwise only the last message and its date of that
  entry are overwritten, without any comparison.  In the result of every parse the names of
  the participants are distinct, they are the senders of the qualifying messages, and every
  participant has the colour of its name, the timestamp of the last qualifying message of
  that sender in the order of the input, and the content that this message had when it was
  opened, which is the first line of its content (\<open>entryOk\<close>).
\<close>

theorem participant_aggregation:
  "updateParticipants m pm =
     (if \<not> isMe m \<and> type_msg m \<noteq> System then
        (if sender m \<in> fst ` set pm
         then map (\<lambda>(k, p). if k = sender m
                               then (k, p\<lparr> lastMessage := content m, lastMessageDate := timestamp m \<rparr>)
                               else (k, p)) pm
         else pm @ [(sender m,
                     \<lparr> name = sender m, lastMessage = content m, lastMessageDate = timestamp m,
                       avatarColor = getRandomColor (sender m) \<rparr>)])
      else pm)
   \<and> distinct (map name (participants (parseChatFile text z myName)))
   \<and> set (map name (participants (parseChatFile text z myName)))
       = sender ` {m \<in> set (messages (parseChatFile text z myName)). \<not> isMe m \<and> type_msg m \<noteq> System}
   \<and> list_all
         (\<lambda>p. let mine = filter (\<lambda>m. sender m = name p \<and> \<not> isMe m \<and> type_msg m \<noteq> System)
                             (messages (parseChatFile text z myName))
              in avatarColor p = getRandomColor (name p) \<and> mine \<noteq> []
                 \<and> lastMessageDate p = timestamp (last mine)
                 \<and> lastMessage p = firstLine (content (last mine)))
         (participants (parseChatFile text z myName))"
proof -
  have "list_all (\<lambda>p. entryOk (messages (parseChatFile text z myName)) (name p, p))
      (participants (parseChatFile text z myName))"
    by (rule parse_participants(3))
  then have "list_all
         (\<lambda>p. let mine = filter (\<lambda>m. sender m = name p \<and> \<not> isMe m \<and> type_msg m \<noteq> System)
                             (messages (parseChatFile text z myName))
              in avatarColor p = getRandomColor (name p) \<and> mine \<noteq> []
                 \<and> lastMessageDate p = timestamp (last mine)
                 \<and> lastMessage p = firstLine (content (last mine)))
         (participants (parseChatFile text z myName))"
    by (rule list.pred_mono_strong) (simp add: entryOk_def qualifyingFrom_def qualifies_def Let_def)
  then show ?thesis
    using updateParticipants_cases [of m pm] parse_participants(1,2) [of "text" z myName]
    by (simp only: qualifies_def)
qed

theorem participant_aggregation_witness:
  "map (\<lambda>m. (sender m, content m, timestamp m)) (messages (parseChatFile unorderedText (None :: unit option) None))
     = [(str ''Alice'', str ''Hello'', Some 1732802700000), (str ''Bob'', str ''Hi'', Some 1732802760000),
        (str ''Alice'', str ''Bye'', Some 1732798800000)]
   \<and> map (\<lambda>p. (name p, lastMessage p, lastMessageDate p))
         (participants (parseChatFile unorderedText (None :: unit option) None))
       = [(str ''Bob'', str ''Hi'', Some 1732802760000), (str ''Alice'', str ''Bye'', Some 1732798800000)]
   \<and> distinct (map name (participants (parseChatFile unorderedText (None :: unit option) None)))"
  using participant_aggregation [of undefined "[]" unorderedText "None :: unit option" None]
    parse_unorderedText [of "None :: unit option"]
  by blast

text \<open>
  Claim C8, as stated, fails.  For the name \<open>aaaaaaa\<close> the hash of the code is
  \<open>3058106369\<close>, outside the signed 32-bit range, where arithmetic that wraps around at
  every step gives \<open>-1236860927\<close>; the two select different palette entries.
\<close>

theorem getRandomColor_wraparound_counterexample:
  "hashLoop (str ''aaaaaaa'') = 3058106369
   \<and> hashLoop32 (str ''aaaaaaa'') = - 1236860927
   \<and> getRandomColor (str ''aaaaaaa'') = str ''bg-cyan-500''
   \<and> getRandomColor32 (str ''aaaaaaa'') = str ''bg-green-500''
   \<and> getRandomColor (str ''aaaaaaa'') \<noteq> getRandomColor32 (str ''aaaaaaa'')"
  by code_simp

text \<open>
  Claim C8, amended.  For a name of fewer than \<open>2^21\<close> code units, every intermediate hash is
  below \<open>2^53 - 2^32\<close> in magnitude, so the subtraction and the addition of the loop are exact
  on the numbers of JavaScript.  The colour of such a name is the palette entry at index
  \<open>abs(h) mod 13\<close>, where \<open>h\<close> is folded over the code units of the name by
  \<open>hash = code + ((hash << 5) - hash)\<close>, in which only the shift wraps around to a signed
  32-bit integer and the subtraction and the addition are exact.  This \<open>h\<close> is congruent
  modulo \<open>2^32\<close> to the hash that wraps around at every step, and where \<open>h\<close> lies in the
  signed 32-bit range the two hashes select the same colour.
\<close>

theorem getRandomColor_hash:
  assumes "length nm < 2 ^ 21" and "\<forall>c \<in> set nm. c < 65536"
  shows "(\<forall>k. \<bar>hashLoop (take k nm)\<bar> < 2 ^ 53 - 2 ^ 32)
   \<and> getRandomColor nm = colors ! nat (\<bar>hashLoop nm\<bar> mod 13)
   \<and> hashLoop nm =
       foldl (\<lambda>hash c. int c + (sint (push_bit 5 (word_of_int hash :: 32 word)) - hash)) 0 nm
   \<and> sint (word_of_int (hashLoop nm) :: 32 word) = hashLoop32 nm
   \<and> (- (2 ^ 31) \<le> hashLoop nm \<and> hashLoop nm < 2 ^ 31 \<longrightarrow>
        getRandomColor nm = colors ! nat (\<bar>hashLoop32 nm\<bar> mod 13))"
proof -
  have b: "\<forall>k. \<bar>hashLoop (take k nm)\<bar> < 2 ^ 53 - 2 ^ 32"
    using hashLoop_prefix_bound [OF assms] by blast
  have w: "sint (word_of_int (hashLoop nm) :: 32 word) = hashLoop32 nm"
    using hashLoop_word [of 0 nm] by (simp add: hashLoop_def hashLoop32_def)
  have f: "hashStep = (\<lambda>hash c. int c + (sint (push_bit 5 (word_of_int hash :: 32 word)) - hash))"
    by (intro ext) (simp add: hashStep_def shl5_def)
  have r: "hashLoop32 nm = hashLoop nm"
    if "- (2 ^ 31) \<le> hashLoop nm" "hashLoop nm < 2 ^ 31"
  proof -
    have "sint (word_of_int (hashLoop nm) :: 32 word) = hashLoop nm"
      using that by (simp add: sint_sbintrunc' signed_take_bit_int_eq_self)
    with w show ?thesis by simp
  qed
  have rest: "getRandomColor nm = colors ! nat (\<bar>hashLoop nm\<bar> mod 13)
   \<and> hashLoop nm =
       foldl (\<lambda>hash c. int c + (sint (push_bit 5 (word_of_int hash :: 32 word)) - hash)) 0 nm
   \<and> sint (word_of_int (hashLoop nm) :: 32 word) = hashLoop32 nm
   \<and> (- (2 ^ 31) \<le> hashLoop nm \<and> hashLoop nm < 2 ^ 31 \<longrightarrow>
        getRandomColor nm = colors ! nat (\<bar>hashLoop32 nm\<bar> mod 13))"
    using w r by (simp add: getRandomColor_def length_colors hashLoop_def f)
  from b rest show ?thesis by (rule conjI)
qed

theorem getRandomColor_hash_witness:
  "length (str ''Alice'') = 5 \<and> list_all (\<lambda>c. c < 65536) (str ''Alice'')
   \<and> hashLoop (str ''Alice'') = 63350368
   \<and> \<bar>hashLoop (str ''Alice'')\<bar> < 2 ^ 53 - 2 ^ 32
   \<and> getRandomColor (str ''Alice'') = colors ! nat (\<bar>hashLoop32 (str ''Alice'')\<bar> mod 13)
   \<and> getRandomColor (str ''Alice'') = str ''bg-green-500''"
proof -
  have len: "length (str ''Alice'') < 2 ^ 21" and len5: "length (str ''Alice'') = 5"
    by (simp_all add: str_def)
  have cu: "\<forall>c \<in> set (str ''Alice''). c < 65536" and cul: "list_all (\<lambda>c. c < 65536) (str ''Alice'')"
    by (simp_all add: str_def)
  note base = getRandomColor_hash [OF len cu]
  have bnd: "\<bar>hashLoop (str ''Alice'')\<bar> < 2 ^ 53 - 2 ^ 32"
    using base [THEN conjunct1, rule_format, of 5] by (simp add: len5)
  note imp = base [THEN conjunct2, THEN conjunct2, THEN conjunct2, THEN conjunct2]
  have h: "hashLoop (str ''Alice'') = 63350368" by code_simp
  have rng: "- (2 ^ 31) \<le> hashLoop (str ''Alice'') \<and> hashLoop (str ''Alice'') < 2 ^ 31"
    by (simp only: h) simp
  have c: "getRandomColor (str ''Alice'') = str ''bg-green-500''" by code_simp
  show ?thesis using imp rng c h bnd len5 cul by blast
qed

text \<open>
  Claim C9, as stated, fails for the empty string.  In the line \<open>lineNoSender\<close> the sender is
  the empty string; parsed with the empty string as the self identity, its message has
  \<open>isMe = false\<close> although its sender equals the identity.
\<close>

theorem isMe_empty_identity_counterexample:
  "map (\<lambda>m. (sender m, isMe m)) (messages (parseChatFile lineNoSender (None :: unit option) (Some [])))
     = [([], False)]"
  by (rule parse_lineNoSender)

text \<open>
  Claim C9, amended.  In the result of every parse, \<open>isMe\<close> of a message is true if and only
  if a self identity was given, it is not the empty string, and the sender of the message
  is equal to it; with no self identity, and with the empty string, \<open>isMe\<close> is false in every
  message.
\<close>

theorem isMe_self_identity:
  "list_all (\<lambda>m. isMe m = (case myName of None \<Rightarrow> False | Some s \<Rightarrow> s \<noteq> [] \<and> sender m = s))
     (messages (parseChatFile text z myName))"
proof -
  have eq: "\<And>x. isMeOf myName x = (case myName of None \<Rightarrow> False | Some s \<Rightarrow> s \<noteq> [] \<and> x = s)"
    by (auto simp: isMeOf_def split: option.splits)
  show ?thesis
    using parse_isMe [of myName "text" z] by (simp only: eq)
qed

theorem isMe_self_identity_witness:
  "map (\<lambda>m. (sender m, isMe m)) (messages (parseChatFile unorderedText (None :: unit option) (Some (str ''Alice''))))
     = [(str ''Alice'', True), (str ''Bob'', False), (str ''Alice'', True)]
   \<and> list_all (\<lambda>m. isMe m = (str ''Alice'' \<noteq> [] \<and> sender m = str ''Alice''))
       (messages (parseChatFile unorderedText (None :: unit option) (Some (str ''Alice''))))"
  using isMe_self_identity [of "Some (str ''Alice'')" unorderedText "None :: unit option"]
    parse_unorderedText_Alice [of "None :: unit option"]
  by simp



end
